theory Spec2Isabelle
  imports Main "HOL-Library.Word" "HOL-Library.AList"
begin

unbundle bit_operations_syntax

section \<open>JavaScript primitives used by the sources\<close>

text \<open>
  A JavaScript string is modelled as a \<^typ>\<open>string\<close>, one \<^typ>\<open>char\<close> per code unit
  (code units below 256). A JavaScript number that holds a line number or a count is
  modelled as an \<^typ>\<open>int\<close>, and \<open>+\<close>, \<open>-\<close> and \<open>++\<close> as the operations of \<^typ>\<open>int\<close>. This
  is the arithmetic of the program on the safe integers, the integers of magnitude below
  \<open>2 ^ 53\<close>, which a double holds exactly; beyond them the program rounds and the model does
  not. A statement about the value or the printed form of a number is made for safe integers.
\<close>

definition safeInteger :: "int \<Rightarrow> bool" where
  "safeInteger n = (- (2 ^ 53) < n \<and> n < 2 ^ 53)"

definition startsWith :: "string \<Rightarrow> string \<Rightarrow> bool" where
  "startsWith s p = (take (length p) s = p)"

text \<open>\<open>s.slice(n)\<close> for a non-negative \<open>n\<close>.\<close>

definition sliceFrom :: "string \<Rightarrow> nat \<Rightarrow> string" where
  "sliceFrom s n = drop n s"

text \<open>\<open>s.split('\n')\<close>: the result is never empty, the empty string gives one empty line.\<close>

fun split :: "string \<Rightarrow> string list" where
  "split [] = [[]]"
| "split (c # cs) =
     (if c = CHR ''\<newline>'' then [] # split cs
      else (case split cs of [] \<Rightarrow> [[c]] | l # ls \<Rightarrow> (c # l) # ls))"

text \<open>\<open>xs.join('\n')\<close>.\<close>

fun join :: "string list \<Rightarrow> string" where
  "join [] = []"
| "join [l] = l"
| "join (l # ls) = l @ CHR ''\<newline>'' # join ls"

text \<open>The decimal digits of a natural number, as \<open>String(n)\<close> prints them.\<close>

fun toString10 :: "nat \<Rightarrow> string" where
  "toString10 n =
     (if n < 10 then [''0123456789'' ! n]
      else toString10 (n div 10) @ [''0123456789'' ! (n mod 10)])"

text \<open>
  A safe integer inside a template literal: its decimal digits, after a minus sign when it
  is negative. (From \<open>10 ^ 21\<close> on the program prints an exponent, which the model does not.)
\<close>

definition numberToString :: "int \<Rightarrow> string" where
  "numberToString i = (if i < 0 then CHR ''-'' # toString10 (nat (- i)) else toString10 (nat i))"

section \<open>The data model (types.ts)\<close>

datatype line_type = Add | Remove | Context

record diff_line =
  type :: line_type
  content :: string

text \<open>The optional \<open>id\<close> of a hunk is the field \<open>hunk_id\<close>: \<open>None\<close> is \<open>undefined\<close>.\<close>

record diff_hunk =
  oldStart :: int
  oldCount :: int
  newStart :: int
  newCount :: int
  header :: string
  lines :: "diff_line list"
  rawLines :: "string list"
  hunk_id :: "string option"

record diff_file =
  oldPath :: string
  newPath :: string
  hunks :: "diff_hunk list"
  isBinary :: bool
  diffHeader :: "string list"

section \<open>Parsing (diffParser.ts, parseDiff, parseHunk)\<close>

text \<open>
  What the program can throw: a \<open>TypeError\<close> for a method call on \<open>undefined\<close>, and the
  error of a failed git call.
\<close>

datatype error = TypeError | GitError

text \<open>
  \<open>lines[i]\<close> followed by a method call: reading past the end gives \<open>undefined\<close>, and the
  call on it throws a \<open>TypeError\<close>.
\<close>

definition lineAt :: "string list \<Rightarrow> nat \<Rightarrow> error + string" where
  "lineAt ls i = (if i < length ls then Inr (ls ! i) else Inl TypeError)"

text \<open>\<open>i < lines.length && lines[i].startsWith(p)\<close>.\<close>

definition lineStartsWith :: "string list \<Rightarrow> nat \<Rightarrow> string \<Rightarrow> error + bool" where
  "lineStartsWith ls i p =
     (if i < length ls then
        (case lineAt ls i of Inl e \<Rightarrow> Inl e | Inr line \<Rightarrow> Inr (startsWith line p))
      else Inr False)"

text \<open>\<open>line.indexOf(prefix)\<close>, with \<open>None\<close> for \<open>-1\<close>, and \<open>extractPath\<close>.\<close>

fun indexOf :: "string \<Rightarrow> string \<Rightarrow> nat option" where
  "indexOf [] p = (if p = [] then Some 0 else None)"
| "indexOf (c # t) p = (if startsWith (c # t) p then Some 0 else map_option Suc (indexOf t p))"

definition extractPath :: "string \<Rightarrow> string \<Rightarrow> string" where
  "extractPath line p =
     (case indexOf line p of Some idx \<Rightarrow> sliceFrom line (idx + length p) | None \<Rightarrow> [])"

text \<open>
  The regular expression of the hunk header,
  \<open>^@@ -(\d+)(?:,(\d+))? \+(\d+)(?:,(\d+))? @@(.*)\<close>. A run of digits is followed by a
  character that is not a digit, so the greedy match of \<open>\d+\<close> is the only one that can
  succeed; the result holds the four groups.
\<close>

definition isDigit :: "char \<Rightarrow> bool" where
  "isDigit c = (c \<in> set ''0123456789'')"

definition stripPrefix :: "string \<Rightarrow> string \<Rightarrow> string option" where
  "stripPrefix p s = (if startsWith s p then Some (drop (length p) s) else None)"

definition optCount :: "string \<Rightarrow> string option \<times> string" where
  "optCount s =
     (case s of
        [] \<Rightarrow> (None, s)
      | c # t \<Rightarrow>
          if c = CHR '','' \<and> takeWhile isDigit t \<noteq> []
          then (Some (takeWhile isDigit t), dropWhile isDigit t)
          else (None, s))"

definition matchHeader :: "string \<Rightarrow> (string \<times> string option \<times> string \<times> string option) option" where
  "matchHeader headerLine =
     (case stripPrefix ''@@ -'' headerLine of
        None \<Rightarrow> None
      | Some r1 \<Rightarrow>
          if takeWhile isDigit r1 = [] then None
          else
            (case optCount (dropWhile isDigit r1) of
               (m2, r3) \<Rightarrow>
                 (case stripPrefix '' +'' r3 of
                    None \<Rightarrow> None
                  | Some r4 \<Rightarrow>
                      if takeWhile isDigit r4 = [] then None
                      else
                        (case optCount (dropWhile isDigit r4) of
                           (m4, r6) \<Rightarrow>
                             (case stripPrefix '' @@'' r6 of
                                None \<Rightarrow> None
                              | Some _ \<Rightarrow>
                                  Some (takeWhile isDigit r1, m2, takeWhile isDigit r4, m4))))))"

text \<open>
  \<open>parseInt(s, 10)\<close> on a string of decimal digits: the number that the digits denote, which
  is the value of the program when it is a safe integer.
\<close>

definition parseInt :: "string \<Rightarrow> int" where
  "parseInt s = fold (\<lambda>c n. n * 10 + (of_char c - 48)) s 0"

text \<open>The loop of \<open>parseHunk\<close> over the body of a hunk, from index \<open>i\<close>.\<close>

function parseHunkLoop :: "string list \<Rightarrow> nat \<Rightarrow> diff_hunk \<Rightarrow> error + (diff_hunk \<times> nat)" where
  "parseHunkLoop ls i hunk =
     (if i < length ls then
        (case lineAt ls i of
           Inl e \<Rightarrow> Inl e
         | Inr line \<Rightarrow>
             if startsWith line ''@@'' \<or> startsWith line ''diff --git '' then Inr (hunk, i)
             else if startsWith line [CHR 0x5C, CHR '' ''] then
               parseHunkLoop ls (i + 1) (hunk\<lparr>rawLines := rawLines hunk @ [line]\<rparr>)
             else if startsWith line ''+'' then
               parseHunkLoop ls (i + 1)
                 (hunk\<lparr>lines := lines hunk @ [\<lparr>type = Add, content = sliceFrom line 1\<rparr>],
                       rawLines := rawLines hunk @ [line]\<rparr>)
             else if startsWith line ''-'' then
               parseHunkLoop ls (i + 1)
                 (hunk\<lparr>lines := lines hunk @ [\<lparr>type = Remove, content = sliceFrom line 1\<rparr>],
                       rawLines := rawLines hunk @ [line]\<rparr>)
             else if startsWith line '' '' \<or> line = [] then
               (if line = [] \<and> i = length ls - 1 then Inr (hunk, i)
                else parseHunkLoop ls (i + 1)
                       (hunk\<lparr>lines := lines hunk @ [\<lparr>type = Context, content = sliceFrom line 1\<rparr>],
                             rawLines := rawLines hunk @ [line]\<rparr>))
             else Inr (hunk, i))
      else Inr (hunk, i))"
  by pat_completeness auto
termination
  by (relation "measure (\<lambda>(ls, i, hunk). length ls - i)") auto

declare parseHunkLoop.simps [simp del]

definition parseHunk :: "string list \<Rightarrow> nat \<Rightarrow> error + (diff_hunk \<times> nat)" where
  "parseHunk ls startIndex =
     (case lineAt ls startIndex of
        Inl e \<Rightarrow> Inl e
      | Inr headerLine \<Rightarrow>
          (case matchHeader headerLine of
             None \<Rightarrow>
               Inr (\<lparr>oldStart = 0, oldCount = 0, newStart = 0, newCount = 0,
                     header = headerLine, lines = [], rawLines = [headerLine], hunk_id = None\<rparr>,
                    startIndex + 1)
           | Some (m1, m2, m3, m4) \<Rightarrow>
               parseHunkLoop ls (startIndex + 1)
                 \<lparr>oldStart = parseInt m1,
                  oldCount = (case m2 of Some d \<Rightarrow> parseInt d | None \<Rightarrow> 1),
                  newStart = parseInt m3,
                  newCount = (case m4 of Some d \<Rightarrow> parseInt d | None \<Rightarrow> 1),
                  header = headerLine, lines = [], rawLines = [headerLine], hunk_id = None\<rparr>))"

text \<open>
  The lines that the loop accepts as the body of a hunk, read off the list of the lines
  from the index on: the accepted lines, and the parsed lines they give.
\<close>

definition accepted :: "string \<Rightarrow> bool" where
  "accepted line =
     (\<not> startsWith line ''@@'' \<and> \<not> startsWith line ''diff --git ''
      \<and> (startsWith line [CHR 0x5C, CHR '' ''] \<or> startsWith line ''+'' \<or> startsWith line ''-''
           \<or> startsWith line '' '' \<or> line = []))"

fun bodyRaw :: "string list \<Rightarrow> string list" where
  "bodyRaw [] = []"
| "bodyRaw (line # rest) =
     (if accepted line \<and> \<not> (line = [] \<and> rest = []) then line # bodyRaw rest else [])"

definition lineOf :: "string \<Rightarrow> diff_line" where
  "lineOf line =
     (if startsWith line ''+'' then \<lparr>type = Add, content = sliceFrom line 1\<rparr>
      else if startsWith line ''-'' then \<lparr>type = Remove, content = sliceFrom line 1\<rparr>
      else \<lparr>type = Context, content = sliceFrom line 1\<rparr>)"

definition bodyLines :: "string list \<Rightarrow> diff_line list" where
  "bodyLines raw = map lineOf (filter (\<lambda>line. \<not> startsWith line [CHR 0x5C, CHR '' '']) raw)"

lemma startsWith_Nil [simp]: "startsWith [] p \<longleftrightarrow> p = []"
  by (auto simp: startsWith_def)

lemma parseHunkLoop_drop:
  "i \<le> length ls \<Longrightarrow>
   parseHunkLoop ls i hunk =
     Inr (hunk\<lparr>lines := lines hunk @ bodyLines (bodyRaw (drop i ls)),
               rawLines := rawLines hunk @ bodyRaw (drop i ls)\<rparr>,
          i + length (bodyRaw (drop i ls)))"
proof (induction "length ls - i" arbitrary: i hunk rule: less_induct)
  case less
  show ?case
  proof (cases "i < length ls")
    case False
    with less.prems show ?thesis
      by (subst parseHunkLoop.simps) (simp add: bodyLines_def)
  next
    case True
    let ?line = "ls ! i"
    have d: "drop i ls = ?line # drop (Suc i) ls"
      using True by (simp add: Cons_nth_drop_Suc)
    have last: "drop (Suc i) ls = [] \<longleftrightarrow> i = length ls - 1"
      using True by auto
    have IH: "parseHunkLoop ls (Suc i) h =
        Inr (h\<lparr>lines := lines h @ bodyLines (bodyRaw (drop (Suc i) ls)),
               rawLines := rawLines h @ bodyRaw (drop (Suc i) ls)\<rparr>,
             Suc i + length (bodyRaw (drop (Suc i) ls)))" for h
      using less.hyps [of "Suc i" h] True by simp
    have step: "parseHunkLoop ls i hunk =
        (if startsWith ?line ''@@'' \<or> startsWith ?line ''diff --git '' then Inr (hunk, i)
         else if startsWith ?line [CHR 0x5C, CHR '' ''] then
           parseHunkLoop ls (Suc i) (hunk\<lparr>rawLines := rawLines hunk @ [?line]\<rparr>)
         else if startsWith ?line ''+'' then
           parseHunkLoop ls (Suc i)
             (hunk\<lparr>lines := lines hunk @ [\<lparr>type = Add, content = sliceFrom ?line 1\<rparr>],
                   rawLines := rawLines hunk @ [?line]\<rparr>)
         else if startsWith ?line ''-'' then
           parseHunkLoop ls (Suc i)
             (hunk\<lparr>lines := lines hunk @ [\<lparr>type = Remove, content = sliceFrom ?line 1\<rparr>],
                   rawLines := rawLines hunk @ [?line]\<rparr>)
         else if startsWith ?line '' '' \<or> ?line = [] then
           (if ?line = [] \<and> i = length ls - 1 then Inr (hunk, i)
            else parseHunkLoop ls (Suc i)
                   (hunk\<lparr>lines := lines hunk @ [\<lparr>type = Context, content = sliceFrom ?line 1\<rparr>],
                         rawLines := rawLines hunk @ [?line]\<rparr>))
         else Inr (hunk, i))"
      by (subst parseHunkLoop.simps) (simp add: lineAt_def True)
    consider (stop) "startsWith ?line ''@@'' \<or> startsWith ?line ''diff --git ''"
      | (bs) "\<not> (startsWith ?line ''@@'' \<or> startsWith ?line ''diff --git '')"
          "startsWith ?line [CHR 0x5C, CHR '' '']"
      | (add) "\<not> (startsWith ?line ''@@'' \<or> startsWith ?line ''diff --git '')"
          "\<not> startsWith ?line [CHR 0x5C, CHR '' '']" "startsWith ?line ''+''"
      | (rem) "\<not> (startsWith ?line ''@@'' \<or> startsWith ?line ''diff --git '')"
          "\<not> startsWith ?line [CHR 0x5C, CHR '' '']" "\<not> startsWith ?line ''+''"
          "startsWith ?line ''-''"
      | (ctx) "\<not> (startsWith ?line ''@@'' \<or> startsWith ?line ''diff --git '')"
          "\<not> startsWith ?line [CHR 0x5C, CHR '' '']" "\<not> startsWith ?line ''+''"
          "\<not> startsWith ?line ''-''" "startsWith ?line '' '' \<or> ?line = []"
      | (other) "\<not> (startsWith ?line ''@@'' \<or> startsWith ?line ''diff --git '')"
          "\<not> startsWith ?line [CHR 0x5C, CHR '' '']" "\<not> startsWith ?line ''+''"
          "\<not> startsWith ?line ''-''" "\<not> (startsWith ?line '' '' \<or> ?line = [])"
      by blast
    then show ?thesis
    proof cases
      case stop
      then have "\<not> accepted ?line" by (auto simp: accepted_def)
      with stop show ?thesis
        unfolding step d bodyRaw.simps by (simp add: bodyLines_def)
    next
      case bs
      then have "?line \<noteq> []" by auto
      with bs show ?thesis
        unfolding step d bodyRaw.simps by (simp add: accepted_def bodyLines_def IH)
    next
      case add
      then have "?line \<noteq> []" by auto
      with add show ?thesis
        unfolding step d bodyRaw.simps by (simp add: accepted_def bodyLines_def IH lineOf_def)
    next
      case rem
      then have "?line \<noteq> []" by auto
      with rem show ?thesis
        unfolding step d bodyRaw.simps by (simp add: accepted_def bodyLines_def IH lineOf_def)
    next
      case ctx
      then show ?thesis
        unfolding step d bodyRaw.simps last
        by (auto simp: accepted_def bodyLines_def IH lineOf_def)
    next
      case other
      then have "\<not> accepted ?line" by (auto simp: accepted_def)
      with other show ?thesis
        unfolding step d bodyRaw.simps by (simp add: bodyLines_def)
    qed
  qed
qed


lemma parseHunk_next: "parseHunk ls i = Inr (h, n) \<Longrightarrow> i < n"
  by (cases "i < length ls")
     (auto simp: parseHunk_def lineAt_def parseHunkLoop_drop split: option.splits)

text \<open>The loop that skips the extended headers of a file (lines 31 to 39).\<close>

function skipHeaders :: "string list \<Rightarrow> nat \<Rightarrow> error + nat" where
  "skipHeaders ls i =
     (if i < length ls then
        (case lineAt ls i of
           Inl e \<Rightarrow> Inl e
         | Inr line \<Rightarrow>
             if \<not> startsWith line ''diff --git '' \<and> \<not> startsWith line ''---''
                \<and> \<not> startsWith line ''@@'' \<and> \<not> startsWith line ''Binary''
             then skipHeaders ls (i + 1)
             else Inr i)
      else Inr i)"
  by pat_completeness auto
termination
  by (relation "measure (\<lambda>(ls, i). length ls - i)") auto

declare skipHeaders.simps [simp del]

text \<open>\<open>lines[i - 1] || ''\<close>.\<close>

definition prevLine :: "string list \<Rightarrow> nat \<Rightarrow> string" where
  "prevLine ls i = (if 0 < i \<and> i - 1 < length ls then ls ! (i - 1) else [])"

text \<open>The \<open>---\<close> and \<open>+++\<close> lines of a file (lines 52 to 63).\<close>

definition parsePaths :: "string list \<Rightarrow> nat \<Rightarrow> diff_file \<Rightarrow> error + (diff_file \<times> nat)" where
  "parsePaths ls i file =
     (case lineStartsWith ls i ''---'' of
        Inl e \<Rightarrow> Inl e
      | Inr isOld \<Rightarrow>
          (case (if isOld then
                   (case lineAt ls i of
                      Inl e \<Rightarrow> Inl e
                    | Inr oLine \<Rightarrow>
                        Inr (file\<lparr>diffHeader := diffHeader file @ [oLine],
                                  oldPath := (if startsWith oLine ''--- a/''
                                              then sliceFrom oLine 6 else sliceFrom oLine 4)\<rparr>,
                             i + 1))
                 else Inr (file, i)) of
             Inl e \<Rightarrow> Inl e
           | Inr (file1, i1) \<Rightarrow>
               (case lineStartsWith ls i1 ''+++'' of
                  Inl e \<Rightarrow> Inl e
                | Inr isNew \<Rightarrow>
                    if isNew then
                      (case lineAt ls i1 of
                         Inl e \<Rightarrow> Inl e
                       | Inr nLine \<Rightarrow>
                           Inr (file1\<lparr>diffHeader := diffHeader file1 @ [nLine],
                                      newPath := (if startsWith nLine ''+++ b/''
                                                  then sliceFrom nLine 6 else sliceFrom nLine 4)\<rparr>,
                                i1 + 1))
                    else Inr (file1, i1))))"

text \<open>The loop over the hunks of a file (lines 66 to 74).\<close>

function parseHunks :: "string list \<Rightarrow> nat \<Rightarrow> diff_file \<Rightarrow> error + (diff_file \<times> nat)" where
  "parseHunks ls i file =
     (if i < length ls then
        (case lineAt ls i of
           Inl e \<Rightarrow> Inl e
         | Inr line \<Rightarrow>
             if \<not> startsWith line ''diff --git '' then
               (if startsWith line ''@@'' then
                  (case parseHunk ls i of
                     Inl e \<Rightarrow> Inl e
                   | Inr (hunk, nextIndex) \<Rightarrow>
                       parseHunks ls nextIndex (file\<lparr>hunks := hunks file @ [hunk]\<rparr>))
                else parseHunks ls (i + 1) file)
             else Inr (file, i))
      else Inr (file, i))"
  by pat_completeness auto
termination
  by (relation "measure (\<lambda>(ls, i, file). length ls - i)")
     (auto dest!: parseHunk_next intro: diff_less_mono2)

declare parseHunks.simps [simp del]

text \<open>
  One round of the loop of \<open>parseDiff\<close> at a \<open>diff --git\<close> line: the file it pushes and the
  index it goes on with.
\<close>

definition parseFileAt :: "string list \<Rightarrow> nat \<Rightarrow> error + (diff_file \<times> nat)" where
  "parseFileAt ls i =
     (let file = \<lparr>oldPath = [], newPath = [], hunks = [], isBinary = False, diffHeader = []\<rparr> in
      case skipHeaders ls (i + 1) of
        Inl e \<Rightarrow> Inl e
      | Inr i1 \<Rightarrow>
          (case lineStartsWith ls i1 ''Binary'' of
             Inl e \<Rightarrow> Inl e
           | Inr True \<Rightarrow>
               Inr (file\<lparr>isBinary := True,
                         oldPath := extractPath (prevLine ls i1) ''a/'',
                         newPath := extractPath (prevLine ls i1) ''b/''\<rparr>,
                    i1 + 1)
           | Inr False \<Rightarrow>
               (case parsePaths ls i1 file of
                  Inl e \<Rightarrow> Inl e
                | Inr (file1, i2) \<Rightarrow> parseHunks ls i2 file1)))"

lemma skipHeaders_next: "skipHeaders ls i = Inr n \<Longrightarrow> i \<le> n"
proof (induction "length ls - i" arbitrary: i rule: less_induct)
  case less
  from less.prems show ?case
    apply (subst (asm) skipHeaders.simps)
    apply (auto simp: lineAt_def split: if_splits dest!: less.hyps [rotated])
    done
qed

lemma parsePaths_next: "parsePaths ls i fl = Inr (f, n) \<Longrightarrow> i \<le> n"
  by (auto simp: parsePaths_def lineStartsWith_def lineAt_def split: if_splits)

lemma parseHunks_next: "parseHunks ls i fl = Inr (f, n) \<Longrightarrow> i \<le> n"
proof (induction "length ls - i" arbitrary: i fl rule: less_induct)
  case less
  show ?case
  proof (cases "i < length ls")
    case False
    with less.prems show ?thesis by (subst (asm) parseHunks.simps) simp
  next
    case True
    show ?thesis
    proof (cases "startsWith (ls ! i) ''diff --git ''")
      case d: True
      with True less.prems show ?thesis
        by (subst (asm) parseHunks.simps) (simp add: lineAt_def)
    next
      case d: False
      show ?thesis
      proof (cases "startsWith (ls ! i) ''@@''")
        case False
        with True d less.prems have "parseHunks ls (Suc i) fl = Inr (f, n)"
          by (subst (asm) parseHunks.simps) (simp add: lineAt_def)
        from less.hyps [OF _ this] True have "Suc i \<le> n" by simp
        then show ?thesis by simp
      next
        case a: True
        with True d less.prems obtain hunk k where
          h: "parseHunk ls i = Inr (hunk, k)"
          and r: "parseHunks ls k (fl\<lparr>hunks := hunks fl @ [hunk]\<rparr>) = Inr (f, n)"
          by (subst (asm) parseHunks.simps) (auto simp: lineAt_def split: sum.splits)
        from parseHunk_next [OF h] have ik: "i < k" .
        with True have "length ls - k < length ls - i" by simp
        from less.hyps [OF this r] ik show ?thesis by simp
      qed
    qed
  qed
qed

lemma parseFileAt_next: "parseFileAt ls i = Inr (f, n) \<Longrightarrow> i < n"
  by (auto simp: parseFileAt_def Let_def lineStartsWith_def lineAt_def
      split: sum.splits bool.splits if_splits
      dest!: skipHeaders_next parsePaths_next parseHunks_next)

text \<open>The loop of \<open>parseDiff\<close> over the lines, pushing to \<open>files\<close>.\<close>

function parseFiles :: "string list \<Rightarrow> nat \<Rightarrow> diff_file list \<Rightarrow> error + diff_file list" where
  "parseFiles ls i files =
     (if i < length ls then
        (case lineAt ls i of
           Inl e \<Rightarrow> Inl e
         | Inr line \<Rightarrow>
             if \<not> startsWith line ''diff --git '' then parseFiles ls (i + 1) files
             else
               (case parseFileAt ls i of
                  Inl e \<Rightarrow> Inl e
                | Inr (file, nextIndex) \<Rightarrow> parseFiles ls nextIndex (files @ [file])))
      else Inr files)"
  by pat_completeness auto
termination
  by (relation "measure (\<lambda>(ls, i, files). length ls - i)")
     (auto dest!: parseFileAt_next intro: diff_less_mono2)

declare parseFiles.simps [simp del]

definition parseDiff :: "string \<Rightarrow> error + diff_file list" where
  "parseDiff diffText = parseFiles (split diffText) 0 []"

section \<open>Splitting hunks (diffParser.ts, splitHunks)\<close>

text \<open>
  The state of the inner loop that collects one group of changed lines: the two line
  cursors, the two counters and the two arrays it pushes to. The index \<open>i\<close> into
  \<open>hunk.lines\<close> is modelled by the list of the lines from \<open>i\<close> on.
\<close>

record group_state =
  oldLine :: int
  newLine :: int
  groupOldCount :: int
  groupNewCount :: int
  groupLines :: "diff_line list"
  groupRawLines :: "string list"

fun collectGroup :: "diff_line list \<Rightarrow> group_state \<Rightarrow> group_state \<times> diff_line list" where
  "collectGroup [] s = (s, [])"
| "collectGroup (line # rest) s =
     (if type line \<noteq> Context then
        collectGroup rest
          (let s1 = s\<lparr>groupLines := groupLines s @ [line]\<rparr> in
           if type line = Remove then
             s1\<lparr>groupRawLines := groupRawLines s1 @ [''-'' @ content line],
                groupOldCount := groupOldCount s1 + 1,
                oldLine := oldLine s1 + 1\<rparr>
           else if type line = Add then
             s1\<lparr>groupRawLines := groupRawLines s1 @ [''+'' @ content line],
                groupNewCount := groupNewCount s1 + 1,
                newLine := newLine s1 + 1\<rparr>
           else s1)
      else (s, line # rest))"

lemma collectGroup_length: "length (snd (collectGroup ls s)) \<le> length ls"
  by (induction ls arbitrary: s) (auto simp: Let_def intro: le_SucI)

lemma collectGroup_shrinks':
  "(s', rest') = collectGroup rest s \<Longrightarrow> length rest' < Suc (length rest)"
  using collectGroup_length [of rest s] by (metis le_imp_less_Suc snd_conv)

text \<open>The header and the sub-hunk built from a finished group (lines 198 to 213).\<close>

definition groupHeader :: "int \<Rightarrow> int \<Rightarrow> group_state \<Rightarrow> string" where
  "groupHeader groupOldStart groupNewStart s =
     (let patchOldStart = (if groupOldCount s = 0 then groupOldStart - 1 else groupOldStart);
          patchNewStart = (if groupNewCount s = 0 then groupNewStart - 1 else groupNewStart)
      in ''@@ -'' @ numberToString patchOldStart @ '','' @ numberToString (groupOldCount s)
         @ '' +'' @ numberToString patchNewStart @ '','' @ numberToString (groupNewCount s)
         @ '' @@'')"

definition groupHunk :: "int \<Rightarrow> int \<Rightarrow> group_state \<Rightarrow> diff_hunk" where
  "groupHunk groupOldStart groupNewStart s =
     \<lparr>oldStart = groupOldStart,
      oldCount = groupOldCount s,
      newStart = groupNewStart,
      newCount = groupNewCount s,
      header = groupHeader groupOldStart groupNewStart s,
      lines = groupLines s,
      rawLines = groupHeader groupOldStart groupNewStart s # groupRawLines s,
      hunk_id = None\<rparr>"

text \<open>The outer loop over the lines of one hunk, pushing to \<open>result\<close>.\<close>

function splitLoop :: "diff_line list \<Rightarrow> int \<Rightarrow> int \<Rightarrow> diff_hunk list \<Rightarrow> diff_hunk list" where
  "splitLoop [] ol nl result = result"
| "splitLoop (line # rest) ol nl result =
     (if type line = Context then splitLoop rest (ol + 1) (nl + 1) result
      else
        (case collectGroup (line # rest)
                \<lparr>oldLine = ol, newLine = nl, groupOldCount = 0, groupNewCount = 0,
                 groupLines = [], groupRawLines = []\<rparr> of
           (s, rest') \<Rightarrow>
             splitLoop rest' (oldLine s) (newLine s) (result @ [groupHunk ol nl s])))"
  by pat_completeness auto
termination
  by (relation "measure (\<lambda>(ls, ol, nl, result). length ls)")
     (auto dest: collectGroup_shrinks')

definition splitHunks :: "diff_hunk list \<Rightarrow> diff_hunk list" where
  "splitHunks hs = fold (\<lambda>hunk result. splitLoop (lines hunk) (oldStart hunk) (newStart hunk) result) hs []"

section \<open>Hunk identity (diffParser.ts, fnv1a, computeHunkId, computeHunkIds)\<close>

text \<open>\<open>n.toString(16)\<close> for a non-negative integer, and \<open>s.padStart(n, c)\<close>.\<close>

fun toString16 :: "nat \<Rightarrow> string" where
  "toString16 n =
     (if n < 16 then [''0123456789abcdef'' ! n]
      else toString16 (n div 16) @ [''0123456789abcdef'' ! (n mod 16)])"

definition padStart :: "string \<Rightarrow> nat \<Rightarrow> char \<Rightarrow> string" where
  "padStart s n c = replicate (n - length s) c @ s"

text \<open>
  The hash is a 32-bit word: \<open>^=\<close> is the exclusive or with the code unit, \<open>Math.imul\<close>
  the product modulo \<open>2 ^ 32\<close>, and \<open>hash >>> 0\<close> reads the word as unsigned.
\<close>

definition fnv1a :: "string \<Rightarrow> string" where
  "fnv1a str =
     (let hash = fold (\<lambda>c hash. (hash XOR of_char c) * 0x01000193) str (0x811c9dc5 :: 32 word)
      in padStart (toString16 (unat hash)) 8 CHR ''0'')"

text \<open>The string of a line type, as the template literal \<open>${l.type}\<close> prints it.\<close>

fun typeString :: "line_type \<Rightarrow> string" where
  "typeString Add = ''add''"
| "typeString Remove = ''remove''"
| "typeString Context = ''context''"

definition computeHunkId :: "string \<Rightarrow> diff_hunk \<Rightarrow> string" where
  "computeHunkId filePath hunk =
     (let changedContent =
        join (map (\<lambda>l. typeString (type l) @ '':'' @ content l)
               (filter (\<lambda>l. type l = Add \<or> type l = Remove) (lines hunk)))
      in fnv1a (filePath @ [CHR 0x00] @ changedContent))"

text \<open>
  The first loop of \<open>computeHunkIds\<close>: \<open>ids\<close> is the array pushed to and \<open>seen\<close> the map
  from a base identity to the number of its occurrences so far.
\<close>

fun idsLoop :: "string \<Rightarrow> diff_hunk list \<Rightarrow> string list \<Rightarrow> (string \<rightharpoonup> nat)
    \<Rightarrow> string list \<times> (string \<rightharpoonup> nat)" where
  "idsLoop filePath [] ids seen = (ids, seen)"
| "idsLoop filePath (hunk # rest) ids seen =
     (let baseId = computeHunkId filePath hunk;
          count = (case seen baseId of None \<Rightarrow> 0 | Some c \<Rightarrow> c) + 1
      in idsLoop filePath rest
           (ids @ [if count = 1 then baseId else baseId @ ''-'' @ toString10 count])
           (seen(baseId \<mapsto> count)))"

text \<open>
  The second loop reads \<open>ids[i]\<close> and writes the same index, with \<open>seen\<close> unchanged: a map
  over \<open>ids\<close>. A key that \<open>seen\<close> does not hold compares as \<open>undefined > 1\<close>, which is false.
\<close>

definition relabelFirst :: "(string \<rightharpoonup> nat) \<Rightarrow> string \<Rightarrow> string" where
  "relabelFirst seen baseId =
     (if (case seen baseId of None \<Rightarrow> False | Some c \<Rightarrow> c > 1) then baseId @ ''-1'' else baseId)"

definition computeHunkIds :: "string \<Rightarrow> diff_hunk list \<Rightarrow> string list" where
  "computeHunkIds filePath hs =
     (case idsLoop filePath hs [] Map.empty of (ids, seen) \<Rightarrow> map (relabelFirst seen) ids)"

section \<open>The review state (stateManager.ts)\<close>

datatype hunk_status = Pending | Approved | Rejected

datatype action_type = ApproveAction | RejectAction

text \<open>An undo entry; \<open>entry_type\<close> is its field \<open>type\<close>.\<close>

record undo_entry =
  entry_type :: action_type
  filePath :: string
  hunkId :: string
  forwardPatch :: "string option"

text \<open>
  The git adapter is outside the program. The model records the calls made to it, in order,
  and takes the outcome of each call as an argument of the operation that makes it: whether
  an apply succeeded, and what the re-diff returned (\<open>None\<close> when it failed).
\<close>

datatype git_call = ApplyReverse string | ApplyForward string | GetFileDiff string

text \<open>
  A JavaScript \<open>Map\<close> is an association list in insertion order: \<open>get\<close> is \<^const>\<open>map_of\<close>,
  \<open>set\<close> is \<^const>\<open>AList.update\<close> (an existing key keeps its place) and \<open>delete\<close> is
  \<^const>\<open>AList.delete\<close>. The object written to the storage is the association list of its
  own properties, in the order of their first assignment (the order in which JavaScript
  lists them differs for keys that look like array indices; the object is only looked up
  by key below). The field \<open>storage\<close> is \<open>None\<close> when the manager has no storage, \<open>Some None\<close>
  when nothing is stored under the key yet, and \<open>Some (Some data)\<close> otherwise.
\<close>

type_synonym status_map = "(string \<times> hunk_status) list"

record state_manager =
  statuses :: "(string \<times> status_map) list"
  undoStack :: "undo_entry list"
  storage :: "(string \<times> status_map) list option option"
  gitCalls :: "git_call list"

text \<open>\<open>file.newPath || file.oldPath\<close>: the empty string is falsy.\<close>

definition pathOf :: "diff_file \<Rightarrow> string" where
  "pathOf file = (if newPath file \<noteq> [] then newPath file else oldPath file)"

text \<open>The \<open>id\<close> of a hunk where the code tests \<open>if (hunk.id)\<close>: set and not empty.\<close>

definition truthyId :: "diff_hunk \<Rightarrow> string option" where
  "truthyId hunk = (case hunk_id hunk of None \<Rightarrow> None | Some i \<Rightarrow> if i \<noteq> [] then Some i else None)"

definition buildPatch :: "diff_file \<Rightarrow> diff_hunk \<Rightarrow> string" where
  "buildPatch file hunk =
     join ([''--- a/'' @ (if oldPath file \<noteq> [] then oldPath file else newPath file),
            ''+++ b/'' @ (if newPath file \<noteq> [] then newPath file else oldPath file)]
           @ rawLines hunk)
     @ [CHR ''\<newline>'']"

text \<open>
  The assignment \<open>obj[key] = value\<close> on an object created by \<open>{}\<close>. The key \<open>__proto__\<close> is the
  accessor that \<open>Object.prototype\<close> defines: assigning a string to it does nothing, and
  assigning an object to it sets the prototype. In both cases the object gets no property
  of its own, so \<open>Object.keys\<close>, \<open>Object.entries\<close> and the stored value do not show the key.
  Every other key becomes an own property.
\<close>

definition protoKey :: string where
  "protoKey = ''__proto__''"

definition objectSet :: "string \<Rightarrow> 'a \<Rightarrow> (string \<times> 'a) list \<Rightarrow> (string \<times> 'a) list" where
  "objectSet k v obj = (if k = protoKey then obj else AList.update k v obj)"

text \<open>The object \<open>obj\<close> that \<open>persist\<close> builds for one file, and the object \<open>data\<close>.\<close>

definition approvedObj :: "status_map \<Rightarrow> status_map" where
  "approvedObj mp =
     fold (\<lambda>(i, status) obj. if status = Approved then objectSet i status obj else obj) mp []"

definition persistData :: "(string \<times> status_map) list \<Rightarrow> (string \<times> status_map) list" where
  "persistData sts =
     fold (\<lambda>(filePath, mp) data.
             (let obj = approvedObj mp in
              if obj \<noteq> [] then objectSet filePath obj data else data))
          sts []"

definition persist :: "state_manager \<Rightarrow> state_manager" where
  "persist m =
     (case storage m of
        None \<Rightarrow> m
      | Some _ \<Rightarrow> m\<lparr>storage := Some (Some (persistData (statuses m)))\<rparr>)"

definition restoreFromStorage :: "state_manager \<Rightarrow> state_manager" where
  "restoreFromStorage m =
     (case storage m of
        None \<Rightarrow> m
      | Some None \<Rightarrow> m
      | Some (Some data) \<Rightarrow>
          m\<lparr>statuses :=
               fold (\<lambda>(filePath, obj) sts.
                       AList.update filePath (fold (\<lambda>(i, status) mp. AList.update i status mp) obj []) sts)
                    data (statuses m)\<rparr>)"

text \<open>The constructor.\<close>

definition newStateManager :: "(string \<times> status_map) list option option \<Rightarrow> state_manager" where
  "newStateManager st =
     restoreFromStorage \<lparr>statuses = [], undoStack = [], storage = st, gitCalls = []\<rparr>"

definition syncStatuses :: "diff_file \<Rightarrow> state_manager \<Rightarrow> hunk_status list \<times> state_manager" where
  "syncStatuses file m =
     (let path = pathOf file in
      case (case map_of (statuses m) path of None \<Rightarrow> None
            | Some existing \<Rightarrow> if existing = [] then None else Some existing) of
        None \<Rightarrow>
          (let mp = fold (\<lambda>hunk mp. case truthyId hunk of
                                       Some i \<Rightarrow> AList.update i Pending mp
                                     | None \<Rightarrow> mp)
                        (hunks file) []
           in (map (\<lambda>_. Pending) (hunks file),
               persist (m\<lparr>statuses := AList.update path mp (statuses m)\<rparr>)))
      | Some existing \<Rightarrow>
          (let newMap = fold (\<lambda>hunk newMap. case truthyId hunk of
                                Some i \<Rightarrow>
                                  AList.update i
                                    (case map_of existing i of Some s \<Rightarrow> s | None \<Rightarrow> Pending) newMap
                              | None \<Rightarrow> newMap)
                            (hunks file) []
           in (map (\<lambda>h. case truthyId h of
                            Some i \<Rightarrow> (case map_of newMap i of Some s \<Rightarrow> s | None \<Rightarrow> Pending)
                          | None \<Rightarrow> Pending)
                   (hunks file),
               persist (m\<lparr>statuses := AList.update path newMap (statuses m)\<rparr>))))"

definition getStatusArray :: "diff_file \<Rightarrow> state_manager \<Rightarrow> hunk_status list" where
  "getStatusArray file m =
     (case map_of (statuses m) (pathOf file) of
        None \<Rightarrow> map (\<lambda>_. Pending) (hunks file)
      | Some mp \<Rightarrow>
          map (\<lambda>h. case truthyId h of
                      Some i \<Rightarrow> (case map_of mp i of Some s \<Rightarrow> s | None \<Rightarrow> Pending)
                    | None \<Rightarrow> Pending)
              (hunks file))"

definition approve :: "string \<Rightarrow> string \<Rightarrow> state_manager \<Rightarrow> state_manager" where
  "approve fp i m =
     (case map_of (statuses m) fp of
        None \<Rightarrow> m
      | Some mp \<Rightarrow>
          if map_of mp i = None then m
          else persist
                 (m\<lparr>statuses := AList.update fp (AList.update i Approved mp) (statuses m),
                    undoStack := undoStack m
                      @ [\<lparr>entry_type = ApproveAction, filePath = fp, hunkId = i,
                          forwardPatch = None\<rparr>]\<rparr>))"

text \<open>The loop of \<open>approveAll\<close> over \<open>file.hunks\<close>, on the map of the file and the undo stack.\<close>

fun approveLoop :: "string \<Rightarrow> diff_hunk list \<Rightarrow> status_map \<Rightarrow> undo_entry list
    \<Rightarrow> status_map \<times> undo_entry list" where
  "approveLoop fp [] mp stack = (mp, stack)"
| "approveLoop fp (hunk # rest) mp stack =
     (case truthyId hunk of
        Some i \<Rightarrow>
          if map_of mp i = Some Pending
          then approveLoop fp rest (AList.update i Approved mp)
                 (stack @ [\<lparr>entry_type = ApproveAction, filePath = fp, hunkId = i,
                            forwardPatch = None\<rparr>])
          else approveLoop fp rest mp stack
      | None \<Rightarrow> approveLoop fp rest mp stack)"

definition approveAll :: "string \<Rightarrow> diff_file \<Rightarrow> state_manager \<Rightarrow> state_manager" where
  "approveAll fp file m =
     (case map_of (statuses m) fp of
        None \<Rightarrow> m
      | Some mp \<Rightarrow>
          (case approveLoop fp (hunks file) mp (undoStack m) of
             (mp', stack') \<Rightarrow>
               persist (m\<lparr>statuses := AList.update fp mp' (statuses m), undoStack := stack'\<rparr>)))"

text \<open>
  \<open>reject\<close>: \<open>applyOk\<close> tells whether \<open>git.applyReverse\<close> succeeded and \<open>fresh\<close> is what
  \<open>git.getFileDiff\<close> returned. A failed call ends the operation with the error, as the
  rejected promise does, and leaves the state as it is at that point.
\<close>

definition reject ::
  "string \<Rightarrow> string \<Rightarrow> diff_file \<Rightarrow> bool \<Rightarrow> diff_file list option \<Rightarrow> state_manager
    \<Rightarrow> (error + diff_file option) \<times> state_manager" where
  "reject fp i file applyOk fresh m =
     (case find (\<lambda>h. hunk_id h = Some i) (hunks file) of
        None \<Rightarrow> (Inr None, m)
      | Some hunk \<Rightarrow>
          (let patch = buildPatch file hunk;
               m1 = m\<lparr>gitCalls := gitCalls m @ [ApplyReverse patch]\<rparr>
           in if \<not> applyOk then (Inl GitError, m1)
              else
                (let m2 = m1\<lparr>undoStack := undoStack m1
                            @ [\<lparr>entry_type = RejectAction, filePath = fp, hunkId = i,
                                forwardPatch = Some patch\<rparr>]\<rparr>;
                     m3 = (case map_of (statuses m2) fp of
                             None \<Rightarrow> m2
                           | Some mp \<Rightarrow>
                               m2\<lparr>statuses := AList.update fp (AList.delete i mp) (statuses m2)\<rparr>);
                     m4 = m3\<lparr>gitCalls := gitCalls m3 @ [GetFileDiff fp]\<rparr>
                 in case fresh of
                      None \<Rightarrow> (Inl GitError, m4)
                    | Some [] \<Rightarrow>
                        (Inr None, persist (m4\<lparr>statuses := AList.delete fp (statuses m4)\<rparr>))
                    | Some (freshFile # _) \<Rightarrow>
                        (Inr (Some freshFile), snd (syncStatuses freshFile m4)))))"

text \<open>The loop of \<open>undoApprove\<close>: the last entry that matches is removed.\<close>

fun removeFirst :: "('a \<Rightarrow> bool) \<Rightarrow> 'a list \<Rightarrow> 'a list" where
  "removeFirst P [] = []"
| "removeFirst P (e # es) = (if P e then es else e # removeFirst P es)"

definition undoApprove :: "string \<Rightarrow> string \<Rightarrow> state_manager \<Rightarrow> state_manager" where
  "undoApprove fp i m =
     (case map_of (statuses m) fp of
        None \<Rightarrow> m
      | Some mp \<Rightarrow>
          if map_of mp i = Some Approved
          then persist
                 (m\<lparr>statuses := AList.update fp (AList.update i Pending mp) (statuses m),
                    undoStack :=
                      rev (removeFirst
                             (\<lambda>e. entry_type e = ApproveAction \<and> filePath e = fp \<and> hunkId e = i)
                             (rev (undoStack m)))\<rparr>)
          else m)"

text \<open>
  \<open>undo\<close>: \<open>applyOk\<close> tells whether \<open>git.applyForward\<close> succeeded, when it is called. The
  result \<open>Inr None\<close> is \<open>null\<close>.
\<close>

definition undo :: "bool \<Rightarrow> state_manager \<Rightarrow> (error + (string \<times> action_type) option) \<times> state_manager" where
  "undo applyOk m =
     (if undoStack m = [] then (Inr None, m)
      else
        (let entry = last (undoStack m);
             m1 = m\<lparr>undoStack := butlast (undoStack m)\<rparr>
         in if entry_type entry = ApproveAction then
              (let m2 = (case map_of (statuses m1) (filePath entry) of
                           None \<Rightarrow> m1
                         | Some mp \<Rightarrow>
                             if map_of mp (hunkId entry) \<noteq> None
                             then m1\<lparr>statuses :=
                                      AList.update (filePath entry)
                                        (AList.update (hunkId entry) Pending mp) (statuses m1)\<rparr>
                             else m1)
               in (Inr (Some (filePath entry, entry_type entry)), persist m2))
            else
              (case (if entry_type entry = RejectAction then forwardPatch entry else None) of
                 Some (c # cs) \<Rightarrow>
                   (let m2 = m1\<lparr>gitCalls := gitCalls m1 @ [ApplyForward (c # cs)]\<rparr>
                    in if \<not> applyOk then (Inl GitError, m2)
                       else (Inr (Some (filePath entry, entry_type entry)), persist m2))
               | _ \<Rightarrow> (Inr (Some (filePath entry, entry_type entry)), persist m1))))"

definition clear :: "state_manager \<Rightarrow> state_manager" where
  "clear m = persist (m\<lparr>statuses := [], undoStack := []\<rparr>)"

text \<open>
  The loop of \<open>pruneCommittedFiles\<close> over the keys of \<open>statuses\<close>, with the flag \<open>changed\<close>.
\<close>

fun pruneLoop :: "string set \<Rightarrow> string list \<Rightarrow> (string \<times> status_map) list \<Rightarrow> bool
    \<Rightarrow> (string \<times> status_map) list \<times> bool" where
  "pruneLoop currentPaths [] sts changed = (sts, changed)"
| "pruneLoop currentPaths (path # rest) sts changed =
     (if path \<notin> currentPaths then pruneLoop currentPaths rest (AList.delete path sts) True
      else pruneLoop currentPaths rest sts changed)"

definition pruneCommittedFiles :: "diff_file list \<Rightarrow> state_manager \<Rightarrow> state_manager" where
  "pruneCommittedFiles currentDiffFiles m =
     (let currentPaths = set (map pathOf currentDiffFiles) in
      case pruneLoop currentPaths (map fst (statuses m)) (statuses m) False of
        (sts, changed) \<Rightarrow> if changed then persist (m\<lparr>statuses := sts\<rparr>) else m)"

text \<open>
  The state-mutating operations, each with the outcomes of the git calls it makes, and the
  state after one of them.
\<close>

datatype operation =
    SyncStatuses diff_file
  | Approve string string
  | ApproveAll string diff_file
  | Reject string string diff_file bool "diff_file list option"
  | Undo bool
  | UndoApprove string string
  | Clear
  | PruneCommittedFiles "diff_file list"

fun perform :: "operation \<Rightarrow> state_manager \<Rightarrow> state_manager" where
  "perform (SyncStatuses file) m = snd (syncStatuses file m)"
| "perform (Approve fp i) m = approve fp i m"
| "perform (ApproveAll fp file) m = approveAll fp file m"
| "perform (Reject fp i file applyOk fresh) m = snd (reject fp i file applyOk fresh m)"
| "perform (Undo applyOk) m = snd (undo applyOk m)"
| "perform (UndoApprove fp i) m = undoApprove fp i m"
| "perform Clear m = clear m"
| "perform (PruneCommittedFiles files) m = pruneCommittedFiles files m"




section \<open>Properties of the parser\<close>

text \<open>One step of each loop, by the case it takes.\<close>

lemma parseHunks_end: "\<not> i < length ls \<Longrightarrow> parseHunks ls i fl = Inr (fl, i)"
  by (subst parseHunks.simps) simp

lemma parseHunks_stop:
  "i < length ls \<Longrightarrow> startsWith (ls ! i) ''diff --git '' \<Longrightarrow> parseHunks ls i fl = Inr (fl, i)"
  by (subst parseHunks.simps) (simp add: lineAt_def)

lemma parseHunks_skip:
  "i < length ls \<Longrightarrow> \<not> startsWith (ls ! i) ''diff --git '' \<Longrightarrow> \<not> startsWith (ls ! i) ''@@'' \<Longrightarrow>
   parseHunks ls i fl = parseHunks ls (Suc i) fl"
  by (subst parseHunks.simps) (simp add: lineAt_def)

lemma parseHunks_hunk:
  "i < length ls \<Longrightarrow> \<not> startsWith (ls ! i) ''diff --git '' \<Longrightarrow> startsWith (ls ! i) ''@@'' \<Longrightarrow>
   parseHunk ls i = Inr (hunk, k) \<Longrightarrow>
   parseHunks ls i fl = parseHunks ls k (fl\<lparr>hunks := hunks fl @ [hunk]\<rparr>)"
  by (subst parseHunks.simps) (simp add: lineAt_def)

lemma parseFiles_end: "\<not> i < length ls \<Longrightarrow> parseFiles ls i files = Inr files"
  by (subst parseFiles.simps) simp

lemma parseFiles_skip:
  "i < length ls \<Longrightarrow> \<not> startsWith (ls ! i) ''diff --git '' \<Longrightarrow>
   parseFiles ls i files = parseFiles ls (Suc i) files"
  by (subst parseFiles.simps) (simp add: lineAt_def)

lemma parseFiles_file:
  "i < length ls \<Longrightarrow> startsWith (ls ! i) ''diff --git '' \<Longrightarrow> parseFileAt ls i = Inr (fl, k) \<Longrightarrow>
   parseFiles ls i files = parseFiles ls k (files @ [fl])"
  by (subst parseFiles.simps) (simp add: lineAt_def)

lemma skipHeaders_end: "\<not> i < length ls \<Longrightarrow> skipHeaders ls i = Inr i"
  by (subst skipHeaders.simps) simp

lemma skipHeaders_stop:
  "i < length ls \<Longrightarrow>
   startsWith (ls ! i) ''diff --git '' \<or> startsWith (ls ! i) ''---''
     \<or> startsWith (ls ! i) ''@@'' \<or> startsWith (ls ! i) ''Binary'' \<Longrightarrow>
   skipHeaders ls i = Inr i"
  by (subst skipHeaders.simps) (auto simp: lineAt_def)

lemma skipHeaders_skip:
  "i < length ls \<Longrightarrow>
   \<not> (startsWith (ls ! i) ''diff --git '' \<or> startsWith (ls ! i) ''---''
     \<or> startsWith (ls ! i) ''@@'' \<or> startsWith (ls ! i) ''Binary'') \<Longrightarrow>
   skipHeaders ls i = skipHeaders ls (Suc i)"
  by (subst skipHeaders.simps) (auto simp: lineAt_def)

lemma startsWith_same_head:
  "startsWith s (c # p) \<Longrightarrow> startsWith s (d # q) \<Longrightarrow> c = d"
  by (cases s) (auto simp: startsWith_def)

lemma lineStartsWith_total: "\<exists>b. lineStartsWith ls i p = Inr b"
  by (cases "i < length ls") (auto simp: lineStartsWith_def lineAt_def)

text \<open>No loop of the parser throws.\<close>

lemma skipHeaders_total: "\<exists>n. skipHeaders ls i = Inr n"
proof (induction "length ls - i" arbitrary: i rule: less_induct)
  case less
  show ?case
  proof (cases "i < length ls")
    case False
    then show ?thesis by (simp add: skipHeaders_end)
  next
    case True
    show ?thesis
    proof (cases "startsWith (ls ! i) ''diff --git '' \<or> startsWith (ls ! i) ''---''
        \<or> startsWith (ls ! i) ''@@'' \<or> startsWith (ls ! i) ''Binary''")
      case s: True
      from skipHeaders_stop [OF True s] show ?thesis by simp
    next
      case s: False
      from less [of "Suc i"] True show ?thesis
        unfolding skipHeaders_skip [OF True s] by simp
    qed
  qed
qed

lemma parseHunk_total: "i < length ls \<Longrightarrow> \<exists>r. parseHunk ls i = Inr r"
  by (auto simp: parseHunk_def lineAt_def parseHunkLoop_drop split: option.splits)

lemma parsePaths_total: "\<exists>r. parsePaths ls i fl = Inr r"
  by (auto simp: parsePaths_def lineStartsWith_def lineAt_def)

lemma parseHunks_total: "\<exists>r. parseHunks ls i fl = Inr r"
proof (induction "length ls - i" arbitrary: i fl rule: less_induct)
  case less
  show ?case
  proof (cases "i < length ls")
    case False
    then show ?thesis by (simp add: parseHunks_end)
  next
    case True
    show ?thesis
    proof (cases "startsWith (ls ! i) ''diff --git ''")
      case d: True
      from parseHunks_stop [OF True d] show ?thesis by simp
    next
      case d: False
      show ?thesis
      proof (cases "startsWith (ls ! i) ''@@''")
        case False
        from less [of "Suc i"] True show ?thesis
          unfolding parseHunks_skip [OF True d False] by simp
      next
        case a: True
        from parseHunk_total [OF True] obtain hunk k where h: "parseHunk ls i = Inr (hunk, k)"
          by fastforce
        from parseHunk_next [OF h] True have "length ls - k < length ls - i" by simp
        from less [OF this] show ?thesis
          unfolding parseHunks_hunk [OF True d a h] .
      qed
    qed
  qed
qed

lemma parseFileAt_total: "\<exists>r. parseFileAt ls i = Inr r"
proof -
  obtain i1 where s: "skipHeaders ls (i + 1) = Inr i1" using skipHeaders_total by blast
  obtain b where b: "lineStartsWith ls i1 ''Binary'' = Inr b"
    using lineStartsWith_total by blast
  show ?thesis
  proof (cases b)
    case True
    with s b show ?thesis by (simp add: parseFileAt_def)
  next
    case False
    obtain f1 i2 where p: "parsePaths ls i1
        \<lparr>oldPath = [], newPath = [], hunks = [], isBinary = False, diffHeader = []\<rparr> = Inr (f1, i2)"
      using parsePaths_total by fastforce
    with s b False parseHunks_total [of ls i2 f1] show ?thesis
      by (simp add: parseFileAt_def)
  qed
qed


text \<open>The hunk that \<open>parseHunk\<close> returns for a header line that the grammar does not match.\<close>

definition degenerateHunk :: "string \<Rightarrow> diff_hunk" where
  "degenerateHunk headerLine =
     \<lparr>oldStart = 0, oldCount = 0, newStart = 0, newCount = 0, header = headerLine,
      lines = [], rawLines = [headerLine], hunk_id = None\<rparr>"



subsection \<open>Patches of parsed hunks\<close>

text \<open>A string without a line break: what \<open>split\<close> returns and what \<open>join\<close> keeps apart.\<close>

definition nlFree :: "string \<Rightarrow> bool" where
  "nlFree s = (CHR ''\<newline>'' \<notin> set s)"

lemma split_not_Nil [simp]: "split s \<noteq> []"
  by (induction s) (auto split: list.splits)

lemma split_nlFree: "l \<in> set (split s) \<Longrightarrow> nlFree l"
proof (induction s arbitrary: l)
  case Nil
  then show ?case by (simp add: nlFree_def)
next
  case (Cons c s)
  show ?case
  proof (cases "c = CHR ''\<newline>''")
    case True
    with Cons show ?thesis by (auto simp: nlFree_def)
  next
    case False
    obtain x xs where xs: "split s = x # xs" by (cases "split s") auto
    with Cons.prems False have "l = c # x \<or> l \<in> set xs" by auto
    then show ?thesis
    proof
      assume "l = c # x"
      moreover have "nlFree x" using Cons.IH [of x] xs by simp
      ultimately show ?thesis using False by (simp add: nlFree_def)
    next
      assume "l \<in> set xs"
      then show ?thesis using Cons.IH [of l] xs by simp
    qed
  qed
qed

lemma split_single: "nlFree s \<Longrightarrow> split s = [s]"
  by (induction s) (auto simp: nlFree_def)

lemma split_append: "split (s @ CHR ''\<newline>'' # t) = split s @ split t"
proof (induction s)
  case Nil
  show ?case by simp
next
  case (Cons c s)
  obtain x xs where xs: "split s = x # xs" by (cases "split s") auto
  with Cons show ?case by simp
qed

lemma split_join: "ls \<noteq> [] \<Longrightarrow> \<forall>l \<in> set ls. nlFree l \<Longrightarrow> split (join ls) = ls"
proof (induction ls rule: join.induct)
  case 1
  then show ?case by simp
next
  case (2 l)
  then show ?case by (simp add: split_single)
next
  case (3 l v va)
  then show ?case by (simp add: split_append split_single)
qed

lemma split_join_nl:
  "ls \<noteq> [] \<Longrightarrow> \<forall>l \<in> set ls. nlFree l \<Longrightarrow> split (join ls @ [CHR ''\<newline>'']) = ls @ [[]]"
  using split_append [of "join ls" "[]"] by (simp add: split_join)

lemma nlFree_drop: "nlFree s \<Longrightarrow> nlFree (drop n s)"
  unfolding nlFree_def by (auto dest: in_set_dropD)

lemma nlFree_Nil [simp]: "nlFree []"
  by (simp add: nlFree_def)

lemma nlFree_Cons [simp]: "nlFree (c # s) \<longleftrightarrow> c \<noteq> CHR ''\<newline>'' \<and> nlFree s"
  by (auto simp: nlFree_def)

lemma nlFree_append [simp]: "nlFree (a @ b) \<longleftrightarrow> nlFree a \<and> nlFree b"
  by (auto simp: nlFree_def)

text \<open>What holds of every hunk that the parser returns.\<close>

definition parsedHunk :: "diff_hunk \<Rightarrow> bool" where
  "parsedHunk h =
     (startsWith (header h) ''@@'' \<and> nlFree (header h)
      \<and> (\<exists>body. rawLines h = header h # body
            \<and> (\<forall>l \<in> set body. accepted l \<and> nlFree l)
            \<and> lines h = bodyLines body
            \<and> (matchHeader (header h) = None \<longrightarrow> body = [])))"

definition parsedFile :: "diff_file \<Rightarrow> bool" where
  "parsedFile f = (nlFree (oldPath f) \<and> nlFree (newPath f) \<and> (\<forall>h \<in> set (hunks f). parsedHunk h))"

lemma bodyRaw_accepted: "l \<in> set (bodyRaw xs) \<Longrightarrow> accepted l \<and> l \<in> set xs"
  by (induction xs) (auto split: if_splits)

lemma parseHunk_parsed:
  assumes i: "i < length ls" and at: "startsWith (ls ! i) ''@@''"
    and nl: "\<forall>l \<in> set ls. nlFree l" and p: "parseHunk ls i = Inr (h, n)"
  shows "parsedHunk h"
proof (cases "matchHeader (ls ! i)")
  case None
  with i p have "h = degenerateHunk (ls ! i)"
    by (simp add: parseHunk_def lineAt_def degenerateHunk_def)
  with at nl i None show ?thesis
    by (simp add: parsedHunk_def degenerateHunk_def bodyLines_def)
next
  case (Some m)
  obtain m1 m2 m3 m4 where m: "m = (m1, m2, m3, m4)" by (cases m)
  let ?body = "bodyRaw (drop (Suc i) ls)"
  from i p Some m have h: "header h = ls ! i" "rawLines h = ls ! i # ?body"
    "lines h = bodyLines ?body"
    by (auto simp: parseHunk_def lineAt_def parseHunkLoop_drop)
  have "\<forall>l \<in> set ?body. accepted l \<and> nlFree l"
    using bodyRaw_accepted nl by (metis in_set_dropD)
  with h at nl i Some show ?thesis
    by (auto simp: parsedHunk_def)
qed

lemma parseHunks_parsed:
  assumes nl: "\<forall>l \<in> set ls. nlFree l"
  shows "parsedFile fl \<Longrightarrow> parseHunks ls i fl = Inr (f, n) \<Longrightarrow> parsedFile f"
proof (induction "length ls - i" arbitrary: i fl rule: less_induct)
  case less
  show ?case
  proof (cases "i < length ls")
    case False
    with less.prems show ?thesis by (simp add: parseHunks_end)
  next
    case True
    show ?thesis
    proof (cases "startsWith (ls ! i) ''diff --git ''")
      case d: True
      with less.prems True show ?thesis by (simp add: parseHunks_stop)
    next
      case d: False
      show ?thesis
      proof (cases "startsWith (ls ! i) ''@@''")
        case False
        from less.prems(2) have "parseHunks ls (Suc i) fl = Inr (f, n)"
          unfolding parseHunks_skip [OF True d False] .
        from less.hyps [OF _ less.prems(1) this] True show ?thesis by simp
      next
        case a: True
        from parseHunk_total [OF True] obtain hunk k where h: "parseHunk ls i = Inr (hunk, k)"
          by fastforce
        from parseHunk_next [OF h] True have lt: "length ls - k < length ls - i" by simp
        have "parsedHunk hunk" using parseHunk_parsed [OF True a nl h] .
        with less.prems(1) have g: "parsedFile (fl\<lparr>hunks := hunks fl @ [hunk]\<rparr>)"
          by (simp add: parsedFile_def)
        from less.prems(2) have "parseHunks ls k (fl\<lparr>hunks := hunks fl @ [hunk]\<rparr>) = Inr (f, n)"
          unfolding parseHunks_hunk [OF True d a h] .
        from less.hyps [OF lt g this] show ?thesis .
      qed
    qed
  qed
qed

lemma parsePaths_parsed:
  assumes nl: "\<forall>l \<in> set ls. nlFree l" and g: "parsedFile fl" and p: "parsePaths ls i fl = Inr (f, n)"
  shows "parsedFile f"
proof -
  have "j < length ls \<Longrightarrow> nlFree (sliceFrom (ls ! j) k)" for j k
    using nl by (simp add: sliceFrom_def nlFree_drop)
  with g p show ?thesis
    by (auto simp: parsePaths_def lineStartsWith_def lineAt_def parsedFile_def split: if_splits)
qed

lemma nlFree_extractPath: "nlFree s \<Longrightarrow> nlFree (extractPath s p)"
  by (simp add: extractPath_def sliceFrom_def nlFree_drop split: option.splits)

lemma nlFree_prevLine: "\<forall>l \<in> set ls. nlFree l \<Longrightarrow> nlFree (prevLine ls i)"
  by (simp add: prevLine_def)

lemma parseFileAt_parsed:
  assumes nl: "\<forall>l \<in> set ls. nlFree l" and p: "parseFileAt ls i = Inr (f, n)"
  shows "parsedFile f"
proof -
  let ?f0 = "\<lparr>oldPath = [], newPath = [], hunks = [], isBinary = False, diffHeader = []\<rparr>"
  have g0: "parsedFile ?f0" by (simp add: parsedFile_def)
  obtain i1 where s: "skipHeaders ls (i + 1) = Inr i1" using skipHeaders_total by blast
  obtain b where b: "lineStartsWith ls i1 ''Binary'' = Inr b"
    using lineStartsWith_total by blast
  show ?thesis
  proof (cases b)
    case True
    with s b p have "f = ?f0\<lparr>isBinary := True,
        oldPath := extractPath (prevLine ls i1) ''a/'',
        newPath := extractPath (prevLine ls i1) ''b/''\<rparr>"
      by (simp add: parseFileAt_def)
    then show ?thesis
      using nlFree_extractPath [OF nlFree_prevLine [OF nl]] by (simp add: parsedFile_def)
  next
    case False
    obtain f1 i2 where pp: "parsePaths ls i1 ?f0 = Inr (f1, i2)"
      using parsePaths_total by fastforce
    from parsePaths_parsed [OF nl g0 pp] have g1: "parsedFile f1" .
    from s b False pp p have "parseHunks ls i2 f1 = Inr (f, n)"
      by (simp add: parseFileAt_def)
    from parseHunks_parsed [OF nl g1 this] show ?thesis .
  qed
qed

lemma parseFiles_parsed:
  assumes nl: "\<forall>l \<in> set ls. nlFree l"
  shows "\<forall>f \<in> set files. parsedFile f \<Longrightarrow> parseFiles ls i files = Inr r \<Longrightarrow> \<forall>f \<in> set r. parsedFile f"
proof (induction "length ls - i" arbitrary: i files rule: less_induct)
  case less
  show ?case
  proof (cases "i < length ls")
    case False
    with less.prems show ?thesis by (simp add: parseFiles_end)
  next
    case True
    show ?thesis
    proof (cases "startsWith (ls ! i) ''diff --git ''")
      case False
      from less.prems(2) have "parseFiles ls (Suc i) files = Inr r"
        unfolding parseFiles_skip [OF True False] .
      from less.hyps [OF _ less.prems(1) this] True show ?thesis by simp
    next
      case d: True
      from parseFileAt_total obtain fl k where f: "parseFileAt ls i = Inr (fl, k)"
        by fastforce
      from parseFileAt_next [OF f] True have lt: "length ls - k < length ls - i" by simp
      from parseFileAt_parsed [OF nl f] less.prems(1)
      have g: "\<forall>f \<in> set (files @ [fl]). parsedFile f" by simp
      from less.prems(2) have "parseFiles ls k (files @ [fl]) = Inr r"
        unfolding parseFiles_file [OF True d f] .
      from less.hyps [OF lt g this] show ?thesis .
    qed
  qed
qed

lemma parseDiff_parsed: "parseDiff text = Inr files \<Longrightarrow> f \<in> set files \<Longrightarrow> parsedFile f"
  using parseFiles_parsed [of "split text" "[]" 0 files] split_nlFree
  by (auto simp: parseDiff_def)

lemma bodyRaw_reparse:
  "\<forall>l \<in> set body. accepted l \<Longrightarrow> bodyRaw (body @ [[]]) = body"
  by (induction body) (auto simp: accepted_def)

lemma accepted_not_git: "accepted l \<Longrightarrow> \<not> startsWith l ''diff --git ''"
  by (simp add: accepted_def)

lemma parseFiles_no_git:
  "\<forall>l \<in> set (drop i ls). \<not> startsWith l ''diff --git '' \<Longrightarrow> parseFiles ls i files = Inr files"
proof (induction "length ls - i" arbitrary: i rule: less_induct)
  case less
  show ?case
  proof (cases "i < length ls")
    case False
    then show ?thesis by (simp add: parseFiles_end)
  next
    case True
    then have d: "drop i ls = ls ! i # drop (Suc i) ls" by (simp add: Cons_nth_drop_Suc)
    with less.prems have a: "\<not> startsWith (ls ! i) ''diff --git ''"
      and b: "\<forall>l \<in> set (drop (Suc i) ls). \<not> startsWith l ''diff --git ''"
      by simp_all
    from less.hyps [OF _ b] True show ?thesis
      unfolding parseFiles_skip [OF True a] by simp
  qed
qed

text \<open>The lines of the patch of a parsed hunk, and what the parser makes of them.\<close>

lemma split_buildPatch:
  assumes "parsedFile f" "parsedHunk h"
  shows "split (buildPatch f h) =
     (''--- a/'' @ (if oldPath f \<noteq> [] then oldPath f else newPath f))
     # (''+++ b/'' @ (if newPath f \<noteq> [] then newPath f else oldPath f))
     # rawLines h @ [[]]"
proof -
  from assms(2) have "\<forall>l \<in> set (rawLines h). nlFree l"
    by (auto simp: parsedHunk_def)
  then have "\<forall>l \<in> set ([''--- a/'' @ (if oldPath f \<noteq> [] then oldPath f else newPath f),
            ''+++ b/'' @ (if newPath f \<noteq> [] then newPath f else oldPath f)] @ rawLines h). nlFree l"
    using assms(1) by (auto simp: parsedFile_def)
  from split_join_nl [OF _ this] show ?thesis
    by (simp add: buildPatch_def)
qed

lemma parse_patch_alone:
  assumes "parsedFile f" "parsedHunk h"
  shows "parseDiff (buildPatch f h) = Inr []"
proof -
  from assms(2) obtain body where b: "rawLines h = header h # body"
    "\<forall>l \<in> set body. accepted l" "startsWith (header h) ''@@''"
    by (auto simp: parsedHunk_def)
  have "\<not> startsWith (header h) ''diff --git ''"
    using b(3) by (auto dest: startsWith_same_head)
  moreover have "\<not> startsWith (''--- a/'' @ p) ''diff --git ''"
    "\<not> startsWith (''+++ b/'' @ p) ''diff --git ''" for p
    by (simp_all add: startsWith_def)
  ultimately have "\<forall>l \<in> set (split (buildPatch f h)). \<not> startsWith l ''diff --git ''"
    unfolding split_buildPatch [OF assms] b(1) using b(2)
    by (auto simp: accepted_not_git)
  then show ?thesis
    unfolding parseDiff_def using parseFiles_no_git [of 0] by simp
qed

lemma reparse_hunk:
  assumes h: "parsedHunk h"
  shows "\<exists>h'. parseHunk (g # a # b # rawLines h @ [[]]) 3
            = Inr (h', 3 + length (rawLines h)) \<and> lines h' = lines h"
proof -
  from h obtain body where b: "rawLines h = header h # body"
    "\<forall>l \<in> set body. accepted l" "lines h = bodyLines body"
    "matchHeader (header h) = None \<longrightarrow> body = []"
    by (auto simp: parsedHunk_def)
  let ?L = "g # a # b # rawLines h @ [[]]"
  have at: "?L ! 3 = header h" "3 < length ?L" by (simp_all add: b(1) numeral_3_eq_3)
  have dr: "drop 4 ?L = body @ [[]]" by (simp add: b(1) numeral_eq_Suc)
  show ?thesis
  proof (cases "matchHeader (header h)")
    case None
    with b have "body = []" by simp
    with None at b show ?thesis
      by (simp add: parseHunk_def lineAt_def bodyLines_def)
  next
    case (Some m)
    obtain m1 m2 m3 m4 where m: "m = (m1, m2, m3, m4)" by (cases m)
    have "4 \<le> length ?L" by (simp add: b(1))
    from parseHunkLoop_drop [OF this] Some m at b show ?thesis
      by (simp add: parseHunk_def lineAt_def dr bodyRaw_reparse)
  qed
qed

lemma reparse_file:
  assumes h: "parsedHunk h" and g: "startsWith g ''diff --git ''"
  shows "\<exists>f' h'. parseFiles (g # (''--- a/'' @ p) # (''+++ b/'' @ q) # rawLines h @ [[]]) 0 []
            = Inr [f'] \<and> hunks f' = [h'] \<and> lines h' = lines h"
proof -
  let ?a = "''--- a/'' @ p" and ?b = "''+++ b/'' @ q"
  let ?L = "g # ?a # ?b # rawLines h @ [[]]"
  let ?n = "length (rawLines h)"
  let ?f0 = "\<lparr>oldPath = [], newPath = [], hunks = [], isBinary = False, diffHeader = []\<rparr>"
  from h obtain body where raw: "rawLines h = header h # body" and at: "startsWith (header h) ''@@''"
    by (auto simp: parsedHunk_def)
  have len: "length ?L = 4 + ?n" by simp
  have L1: "?L ! 1 = ?a" and L2: "?L ! 2 = ?b" and L3: "?L ! 3 = header h"
    by (simp_all add: raw numeral_eq_Suc)
  have Llast: "?L ! (3 + ?n) = []"
    using nth_append_length [of "g # ?a # ?b # rawLines h" "[]" "[]"] by (simp add: numeral_eq_Suc)
  have sa: "startsWith ?a ''---''" "\<not> startsWith ?a ''Binary''"
    and sb: "startsWith ?b ''+++''"
    by (simp_all add: startsWith_def)
  have skip: "skipHeaders ?L (0 + 1) = Inr 1"
    using skipHeaders_stop [of 1 ?L] sa(1) L1 len by simp
  have bin: "lineStartsWith ?L 1 ''Binary'' = Inr False"
    using sa(2) L1 len by (simp add: lineStartsWith_def lineAt_def)
  obtain f2 where paths: "parsePaths ?L 1 ?f0 = Inr (f2, 3)" and f2: "hunks f2 = []"
  proof -
    have "\<exists>f2. parsePaths ?L 1 ?f0 = Inr (f2, 3) \<and> hunks f2 = []"
      using sa(1) sb L1 L2 len
      by (simp add: parsePaths_def lineStartsWith_def lineAt_def numeral_eq_Suc)
    then show ?thesis using that by blast
  qed
  from reparse_hunk [OF h, of g ?a ?b] obtain h' where
    ph: "parseHunk ?L 3 = Inr (h', 3 + ?n)" and lh: "lines h' = lines h"
    by blast
  have ng: "\<not> startsWith (?L ! 3) ''diff --git ''"
    using at L3 by (auto dest: startsWith_same_head)
  have "parseHunks ?L 3 f2 = parseHunks ?L (3 + ?n) (f2\<lparr>hunks := hunks f2 @ [h']\<rparr>)"
    using parseHunks_hunk [of 3 ?L h' "3 + ?n" f2] ng at L3 ph len by simp
  also have "\<dots> = parseHunks ?L (Suc (3 + ?n)) (f2\<lparr>hunks := hunks f2 @ [h']\<rparr>)"
    using parseHunks_skip [of "3 + ?n" ?L] Llast len by simp
  also have "\<dots> = Inr (f2\<lparr>hunks := hunks f2 @ [h']\<rparr>, Suc (3 + ?n))"
    using parseHunks_end [of "Suc (3 + ?n)" ?L] len by simp
  finally have hs: "parseHunks ?L 3 f2 = Inr (f2\<lparr>hunks := [h']\<rparr>, 4 + ?n)"
    using f2 by simp
  have fa: "parseFileAt ?L 0 = Inr (f2\<lparr>hunks := [h']\<rparr>, 4 + ?n)"
    unfolding parseFileAt_def Let_def skip using bin paths hs by simp
  have "parseFiles ?L 0 [] = parseFiles ?L (4 + ?n) ([] @ [f2\<lparr>hunks := [h']\<rparr>])"
    using parseFiles_file [of 0 ?L "f2\<lparr>hunks := [h']\<rparr>" "4 + ?n" "[]"] g fa by simp
  also have "\<dots> = Inr [f2\<lparr>hunks := [h']\<rparr>]"
    using parseFiles_end [of "4 + ?n" ?L] len by simp
  finally show ?thesis using lh by simp
qed

text \<open>
  Claim C3, as amended. Take a hunk of a file that \<open>parseDiff\<close> returns for some text, and
  the patch that \<open>buildPatch\<close> assembles from the file's paths and the hunk's raw lines.
  \<open>parseDiff\<close> on the patch alone returns no file, since it starts a file only at a
  \<open>diff --git\<close> line. \<open>parseDiff\<close> on the patch preceded by a \<open>diff --git\<close> line returns
  exactly one file with exactly one hunk, whose lines are the lines of the original hunk.
\<close>

theorem patch_roundtrip:
  assumes "parseDiff diffText = Inr files" and "f \<in> set files" and "h \<in> set (hunks f)"
  shows "parseDiff (buildPatch f h) = Inr []
    \<and> (\<forall>g. startsWith g ''diff --git '' \<and> nlFree g \<longrightarrow>
          (\<exists>f' h'. parseDiff (g @ [CHR ''\<newline>''] @ buildPatch f h) = Inr [f']
             \<and> hunks f' = [h'] \<and> lines h' = lines h))"
proof (intro conjI allI impI)
  from parseDiff_parsed [OF assms(1,2)] have pf: "parsedFile f" .
  with assms(3) have ph: "parsedHunk h" by (simp add: parsedFile_def)
  show "parseDiff (buildPatch f h) = Inr []"
    using pf ph by (rule parse_patch_alone)
  fix g assume g: "startsWith g ''diff --git '' \<and> nlFree g"
  have "split (g @ [CHR ''\<newline>''] @ buildPatch f h) = split g @ split (buildPatch f h)"
    using split_append [of g "buildPatch f h"] by simp
  also have "\<dots> = g # (''--- a/'' @ (if oldPath f \<noteq> [] then oldPath f else newPath f))
     # (''+++ b/'' @ (if newPath f \<noteq> [] then newPath f else oldPath f))
     # rawLines h @ [[]]"
    using g by (simp add: split_single split_buildPatch [OF pf ph])
  finally show "\<exists>f' h'. parseDiff (g @ [CHR ''\<newline>''] @ buildPatch f h) = Inr [f']
             \<and> hunks f' = [h'] \<and> lines h' = lines h"
    unfolding parseDiff_def using reparse_file [OF ph, of g] g by simp
qed

text \<open>The theorem at the hunk of the diff of \<open>a.txt\<close> with two added and one removed line.\<close>

theorem patch_roundtrip_witness:
  "parseDiff (buildPatch
      \<lparr>oldPath = ''a.txt'', newPath = ''a.txt'',
       hunks = [\<lparr>oldStart = 1, oldCount = 3, newStart = 1, newCount = 4,
                 header = ''@@ -1,3 +1,4 @@'',
                 lines = [\<lparr>type = Context, content = ''hello''\<rparr>,
                          \<lparr>type = Remove, content = ''world''\<rparr>,
                          \<lparr>type = Add, content = ''beautiful world''\<rparr>,
                          \<lparr>type = Add, content = ''today''\<rparr>,
                          \<lparr>type = Context, content = ''end''\<rparr>],
                 rawLines = [''@@ -1,3 +1,4 @@'', '' hello'', ''-world'', ''+beautiful world'',
                             ''+today'', '' end''],
                 hunk_id = None\<rparr>],
       isBinary = False, diffHeader = [''--- a/a.txt'', ''+++ b/a.txt'']\<rparr>
      \<lparr>oldStart = 1, oldCount = 3, newStart = 1, newCount = 4,
       header = ''@@ -1,3 +1,4 @@'',
       lines = [\<lparr>type = Context, content = ''hello''\<rparr>,
                \<lparr>type = Remove, content = ''world''\<rparr>,
                \<lparr>type = Add, content = ''beautiful world''\<rparr>,
                \<lparr>type = Add, content = ''today''\<rparr>,
                \<lparr>type = Context, content = ''end''\<rparr>],
       rawLines = [''@@ -1,3 +1,4 @@'', '' hello'', ''-world'', ''+beautiful world'',
                   ''+today'', '' end''],
       hunk_id = None\<rparr>) = Inr []
   \<and> (\<exists>f' h'. parseDiff (''diff --git a/a.txt b/a.txt'' @ [CHR ''\<newline>''] @ buildPatch
      \<lparr>oldPath = ''a.txt'', newPath = ''a.txt'',
       hunks = [\<lparr>oldStart = 1, oldCount = 3, newStart = 1, newCount = 4,
                 header = ''@@ -1,3 +1,4 @@'',
                 lines = [\<lparr>type = Context, content = ''hello''\<rparr>,
                          \<lparr>type = Remove, content = ''world''\<rparr>,
                          \<lparr>type = Add, content = ''beautiful world''\<rparr>,
                          \<lparr>type = Add, content = ''today''\<rparr>,
                          \<lparr>type = Context, content = ''end''\<rparr>],
                 rawLines = [''@@ -1,3 +1,4 @@'', '' hello'', ''-world'', ''+beautiful world'',
                             ''+today'', '' end''],
                 hunk_id = None\<rparr>],
       isBinary = False, diffHeader = [''--- a/a.txt'', ''+++ b/a.txt'']\<rparr>
      \<lparr>oldStart = 1, oldCount = 3, newStart = 1, newCount = 4,
       header = ''@@ -1,3 +1,4 @@'',
       lines = [\<lparr>type = Context, content = ''hello''\<rparr>,
                \<lparr>type = Remove, content = ''world''\<rparr>,
                \<lparr>type = Add, content = ''beautiful world''\<rparr>,
                \<lparr>type = Add, content = ''today''\<rparr>,
                \<lparr>type = Context, content = ''end''\<rparr>],
       rawLines = [''@@ -1,3 +1,4 @@'', '' hello'', ''-world'', ''+beautiful world'',
                   ''+today'', '' end''],
       hunk_id = None\<rparr>) = Inr [f']
      \<and> hunks f' = [h']
      \<and> lines h' = [\<lparr>type = Context, content = ''hello''\<rparr>,
                \<lparr>type = Remove, content = ''world''\<rparr>,
                \<lparr>type = Add, content = ''beautiful world''\<rparr>,
                \<lparr>type = Add, content = ''today''\<rparr>,
                \<lparr>type = Context, content = ''end''\<rparr>])"
proof -
  let ?h = "\<lparr>oldStart = 1, oldCount = 3, newStart = 1, newCount = 4,
       header = ''@@ -1,3 +1,4 @@'',
       lines = [\<lparr>type = Context, content = ''hello''\<rparr>,
                \<lparr>type = Remove, content = ''world''\<rparr>,
                \<lparr>type = Add, content = ''beautiful world''\<rparr>,
                \<lparr>type = Add, content = ''today''\<rparr>,
                \<lparr>type = Context, content = ''end''\<rparr>],
       rawLines = [''@@ -1,3 +1,4 @@'', '' hello'', ''-world'', ''+beautiful world'',
                   ''+today'', '' end''],
       hunk_id = None\<rparr>"
  let ?f = "\<lparr>oldPath = ''a.txt'', newPath = ''a.txt'', hunks = [?h],
       isBinary = False, diffHeader = [''--- a/a.txt'', ''+++ b/a.txt'']\<rparr>"
  let ?text = "''diff --git a/a.txt b/a.txt\<newline>--- a/a.txt\<newline>+++ b/a.txt\<newline>@@ -1,3 +1,4 @@\<newline> hello\<newline>-world\<newline>+beautiful world\<newline>+today\<newline> end\<newline>''"
  have p: "parseDiff ?text = Inr [?f]" by code_simp
  have m: "?f \<in> set [?f]" "?h \<in> set (hunks ?f)" by simp_all
  have g: "startsWith ''diff --git a/a.txt b/a.txt'' ''diff --git '' \<and> nlFree ''diff --git a/a.txt b/a.txt''"
    by (simp add: startsWith_def)
  from patch_roundtrip [OF p m] g
  have "parseDiff (buildPatch ?f ?h) = Inr []"
    and "\<exists>f' h'. parseDiff (''diff --git a/a.txt b/a.txt'' @ [CHR ''\<newline>''] @ buildPatch ?f ?h) = Inr [f']
             \<and> hunks f' = [h'] \<and> lines h' = lines ?h"
    by blast+
  then show ?thesis by simp
qed

text \<open>
  Claim C3 as stated fails: the patch built from a parsed hunk has no \<open>diff --git\<close> line,
  and \<open>parseDiff\<close> returns the empty list for it, not one file.
\<close>

theorem patch_alone_parses_to_nothing:
  "parseDiff ''diff --git a/f b/f\<newline>--- a/f\<newline>+++ b/f\<newline>@@ -1 +1 @@\<newline>-x\<newline>+y\<newline>''
   = Inr [\<lparr>oldPath = ''f'', newPath = ''f'',
           hunks = [\<lparr>oldStart = 1, oldCount = 1, newStart = 1, newCount = 1,
                     header = ''@@ -1 +1 @@'',
                     lines = [\<lparr>type = Remove, content = ''x''\<rparr>, \<lparr>type = Add, content = ''y''\<rparr>],
                     rawLines = [''@@ -1 +1 @@'', ''-x'', ''+y''], hunk_id = None\<rparr>],
           isBinary = False, diffHeader = [''--- a/f'', ''+++ b/f'']\<rparr>]
   \<and> buildPatch
        \<lparr>oldPath = ''f'', newPath = ''f'',
         hunks = [\<lparr>oldStart = 1, oldCount = 1, newStart = 1, newCount = 1,
                   header = ''@@ -1 +1 @@'',
                   lines = [\<lparr>type = Remove, content = ''x''\<rparr>, \<lparr>type = Add, content = ''y''\<rparr>],
                   rawLines = [''@@ -1 +1 @@'', ''-x'', ''+y''], hunk_id = None\<rparr>],
         isBinary = False, diffHeader = [''--- a/f'', ''+++ b/f'']\<rparr>
        \<lparr>oldStart = 1, oldCount = 1, newStart = 1, newCount = 1,
         header = ''@@ -1 +1 @@'',
         lines = [\<lparr>type = Remove, content = ''x''\<rparr>, \<lparr>type = Add, content = ''y''\<rparr>],
         rawLines = [''@@ -1 +1 @@'', ''-x'', ''+y''], hunk_id = None\<rparr>
     = ''--- a/f\<newline>+++ b/f\<newline>@@ -1 +1 @@\<newline>-x\<newline>+y\<newline>''
   \<and> parseDiff ''--- a/f\<newline>+++ b/f\<newline>@@ -1 +1 @@\<newline>-x\<newline>+y\<newline>'' = Inr []"
  by code_simp

section \<open>Properties of splitHunks\<close>

definition changed :: "diff_line \<Rightarrow> bool" where
  "changed l = (type l = Add \<or> type l = Remove)"

definition rawOf :: "diff_line \<Rightarrow> string" where
  "rawOf l = (if type l = Remove then ''-'' @ content l else ''+'' @ content l)"

lemma changed_iff: "changed l \<longleftrightarrow> type l \<noteq> Context"
  by (cases "type l") (auto simp: changed_def)

definition countType :: "line_type \<Rightarrow> diff_line list \<Rightarrow> int" where
  "countType t ls = int (length (filter (\<lambda>l. type l = t) ls))"

lemma countType_simps [simp]:
  "countType t [] = 0"
  "countType t (l # ls) = (if type l = t then 1 else 0) + countType t ls"
  "countType t (xs @ ys) = countType t xs + countType t ys"
  by (simp_all add: countType_def)

lemma collectGroup_eq:
  "collectGroup ls s =
     (s\<lparr>oldLine := oldLine s + countType Remove (takeWhile changed ls),
        newLine := newLine s + countType Add (takeWhile changed ls),
        groupOldCount := groupOldCount s + countType Remove (takeWhile changed ls),
        groupNewCount := groupNewCount s + countType Add (takeWhile changed ls),
        groupLines := groupLines s @ takeWhile changed ls,
        groupRawLines := groupRawLines s @ map rawOf (takeWhile changed ls)\<rparr>,
      dropWhile changed ls)"
proof (induction ls arbitrary: s)
  case Nil
  show ?case by simp
next
  case (Cons l ls)
  show ?case
  proof (cases "type l")
    case Add
    then show ?thesis by (simp add: Cons.IH changed_def rawOf_def Let_def)
  next
    case Remove
    then show ?thesis by (simp add: Cons.IH changed_def rawOf_def Let_def)
  next
    case Context
    then show ?thesis by (simp add: changed_def)
  qed
qed

lemma splitLoop_Cons_changed:
  "type line \<noteq> Context \<Longrightarrow>
   splitLoop (line # rest) ol nl result =
     (let run = takeWhile changed (line # rest) in
      splitLoop (dropWhile changed (line # rest))
        (ol + countType Remove run) (nl + countType Add run)
        (result @ [groupHunk ol nl
           \<lparr>oldLine = ol + countType Remove run, newLine = nl + countType Add run,
            groupOldCount = countType Remove run, groupNewCount = countType Add run,
            groupLines = run, groupRawLines = map rawOf run\<rparr>]))"
  apply (subst splitLoop.simps(2))
  apply (simp only: if_False collectGroup_eq)
  apply (simp only: Let_def prod.case)
  apply (simp del: collectGroup.simps splitLoop.simps takeWhile.simps dropWhile.simps)
  done

lemma splitLoop_result: "splitLoop ls ol nl result = result @ splitLoop ls ol nl []"
proof (induction "length ls" arbitrary: ls ol nl result rule: less_induct)
  case less
  show ?case
  proof (cases ls)
    case Nil
    then show ?thesis by simp
  next
    case (Cons line rest)
    show ?thesis
    proof (cases "type line = Context")
      case True
      with Cons less [of rest "ol + 1" "nl + 1" result] show ?thesis by simp
    next
      case False
      have len: "length (dropWhile changed (line # rest)) < length ls"
        using False Cons by (simp add: changed_iff length_dropWhile_le le_imp_less_Suc)
      show ?thesis
        unfolding Cons splitLoop_Cons_changed [OF False] Let_def
        using less [OF len, of _ _ "result @ [x]" for x] less [OF len, of _ _ "[x]" for x]
        by (simp del: splitLoop.simps takeWhile.simps dropWhile.simps)
    qed
  qed
qed

definition runHunk :: "int \<Rightarrow> int \<Rightarrow> diff_line list \<Rightarrow> diff_hunk" where
  "runHunk ol nl run =
     groupHunk ol nl
       \<lparr>oldLine = ol + countType Remove run, newLine = nl + countType Add run,
        groupOldCount = countType Remove run, groupNewCount = countType Add run,
        groupLines = run, groupRawLines = map rawOf run\<rparr>"

lemma lines_runHunk [simp]: "lines (runHunk ol nl run) = run"
  by (simp add: runHunk_def groupHunk_def)

lemma splitLoop_Context:
  "type line = Context \<Longrightarrow> splitLoop (line # rest) ol nl [] = splitLoop rest (ol + 1) (nl + 1) []"
  by simp

lemma splitLoop_changed:
  "type line \<noteq> Context \<Longrightarrow>
   splitLoop (line # rest) ol nl [] =
     runHunk ol nl (takeWhile changed (line # rest))
     # splitLoop (dropWhile changed (line # rest))
         (ol + countType Remove (takeWhile changed (line # rest)))
         (nl + countType Add (takeWhile changed (line # rest))) []"
  unfolding splitLoop_Cons_changed Let_def runHunk_def
  by (subst splitLoop_result) (simp del: splitLoop.simps takeWhile.simps dropWhile.simps)


lemma filter_takeWhile_id: "filter P (takeWhile P xs) = takeWhile P xs"
  by (induction xs) auto

lemma filter_split_run: "filter P xs = takeWhile P xs @ filter P (dropWhile P xs)"
proof -
  have "filter P xs = filter P (takeWhile P xs @ dropWhile P xs)" by simp
  also have "\<dots> = takeWhile P xs @ filter P (dropWhile P xs)"
    unfolding filter_append filter_takeWhile_id ..
  finally show ?thesis .
qed

lemma concat_splitLoop: "concat (map lines (splitLoop ls ol nl [])) = filter changed ls"
proof (induction "length ls" arbitrary: ls ol nl rule: less_induct)
  case less
  show ?case
  proof (cases ls)
    case Nil
    then show ?thesis by simp
  next
    case (Cons line rest)
    show ?thesis
    proof (cases "type line = Context")
      case True
      then have "\<not> changed line" by (simp add: changed_iff)
      with True Cons less [of rest "ol + 1" "nl + 1"] show ?thesis by simp
    next
      case False
      have len: "length (dropWhile changed (line # rest)) < length ls"
        using False Cons by (simp add: changed_iff length_dropWhile_le le_imp_less_Suc)
      show ?thesis
        unfolding Cons splitLoop_changed [OF False]
        using less [OF len] filter_split_run [of changed "line # rest"]
        by (simp del: splitLoop.simps takeWhile.simps dropWhile.simps filter.simps)
    qed
  qed
qed

lemma splitLoop_subs:
  "s \<in> set (splitLoop ls ol nl []) \<Longrightarrow>
   \<exists>pre post. ls = pre @ lines s @ post \<and> lines s \<noteq> [] \<and> (\<forall>l \<in> set (lines s). changed l)
     \<and> (pre = [] \<or> type (last pre) = Context) \<and> (post = [] \<or> type (hd post) = Context)
     \<and> s = runHunk (ol + countType Context pre + countType Remove pre)
                     (nl + countType Context pre + countType Add pre) (lines s)"
proof (induction "length ls" arbitrary: ls ol nl rule: less_induct)
  case less
  show ?case
  proof (cases ls)
    case Nil
    with less.prems show ?thesis by simp
  next
    case (Cons line rest)
    show ?thesis
    proof (cases "type line = Context")
      case True
      with less.prems Cons have "s \<in> set (splitLoop rest (ol + 1) (nl + 1) [])" by simp
      from less.hyps [OF _ this] Cons obtain pre post where
        p: "rest = pre @ lines s @ post" "lines s \<noteq> []" "\<forall>l \<in> set (lines s). changed l"
          "pre = [] \<or> type (last pre) = Context" "post = [] \<or> type (hd post) = Context"
          "s = runHunk (ol + 1 + countType Context pre + countType Remove pre)
                     (nl + 1 + countType Context pre + countType Add pre) (lines s)"
        by auto
      show ?thesis
        apply (rule exI [of _ "line # pre"], rule exI [of _ post])
        using p True Cons by (auto simp: algebra_simps)
    next
      case False
      let ?run = "takeWhile changed (line # rest)"
      let ?rest = "dropWhile changed (line # rest)"
      have len: "length ?rest < length ls"
        using False Cons by (simp add: changed_iff length_dropWhile_le le_imp_less_Suc)
      have run_ne: "?run \<noteq> []" using False by (simp add: changed_iff)
      have run_ch: "\<forall>l \<in> set ?run. changed l" by (auto dest: set_takeWhileD)
      have run_cx: "countType Context ?run = 0"
        using run_ch by (auto simp: countType_def filter_empty_conv changed_def)
      have rest_hd: "?rest = [] \<or> type (hd ?rest) = Context"
      proof (cases "?rest = []")
        case True
        then show ?thesis ..
      next
        case False
        then have "\<not> changed (hd ?rest)" by (rule hd_dropWhile)
        then have "type (hd ?rest) = Context" unfolding changed_iff by blast
        then show ?thesis ..
      qed
      from less.prems have "s = runHunk ol nl ?run \<or>
          s \<in> set (splitLoop ?rest (ol + countType Remove ?run) (nl + countType Add ?run) [])"
        unfolding Cons splitLoop_changed [OF False] by simp
      then show ?thesis
      proof
        assume s: "s = runHunk ol nl ?run"
        show ?thesis
          apply (rule exI [of _ "[]"], rule exI [of _ ?rest])
          using s run_ne run_ch rest_hd Cons
          by (simp del: takeWhile.simps dropWhile.simps)
      next
        assume "s \<in> set (splitLoop ?rest (ol + countType Remove ?run) (nl + countType Add ?run) [])"
        from less.hyps [OF len this] obtain pre post where
          p: "?rest = pre @ lines s @ post" "lines s \<noteq> []" "\<forall>l \<in> set (lines s). changed l"
            "pre = [] \<or> type (last pre) = Context" "post = [] \<or> type (hd post) = Context"
            "s = runHunk (ol + countType Remove ?run + countType Context pre + countType Remove pre)
                       (nl + countType Add ?run + countType Context pre + countType Add pre) (lines s)"
          by auto
        have pre_ne: "pre \<noteq> []"
        proof
          assume "pre = []"
          with p(1,2) have "hd ?rest = hd (lines s)" "?rest \<noteq> []" by auto
          with rest_hd p(2,3) show False by (auto simp: changed_iff)
        qed
        have dec: "ls = (?run @ pre) @ lines s @ post"
          using p(1) Cons takeWhile_dropWhile_id [of changed "line # rest"]
          by (simp del: takeWhile.simps dropWhile.simps)
        show ?thesis
          apply (rule exI [of _ "?run @ pre"], rule exI [of _ post])
          using dec p pre_ne run_cx
          by (simp del: takeWhile.simps dropWhile.simps add: algebra_simps)
      qed
    qed
  qed
qed


lemma splitHunks_concat:
  "splitHunks hs = concat (map (\<lambda>h. splitLoop (lines h) (oldStart h) (newStart h) []) hs)"
proof -
  have "fold (\<lambda>hunk result. splitLoop (lines hunk) (oldStart hunk) (newStart hunk) result) hs acc
      = acc @ concat (map (\<lambda>h. splitLoop (lines h) (oldStart h) (newStart h) []) hs)" for acc
  proof (induction hs arbitrary: acc)
    case Nil
    show ?case by simp
  next
    case (Cons h hs)
    show ?case
      unfolding fold_Cons comp_def Cons.IH
      by (subst splitLoop_result) simp
  qed
  from this [of "[]"] show ?thesis by (simp add: splitHunks_def)
qed

lemma splitHunks_single: "splitHunks [h] = splitLoop (lines h) (oldStart h) (newStart h) []"
  by (simp add: splitHunks_concat)

text \<open>
  Claim C1. For every hunk, the add/remove lines of the sub-hunks that \<open>splitHunks\<close> produces
  from it, concatenated in order, are the add/remove lines of the hunk, in order: no changed
  line is dropped and none is duplicated. Every sub-hunk holds one maximal contiguous run of
  non-context lines: its lines are a non-empty block of the hunk's lines without a context
  line, and the block is preceded and followed by a context line or by an end of the hunk.
\<close>

theorem splitHunks_changed_lines:
  "concat (map (\<lambda>s. filter changed (lines s)) (splitHunks [h])) = filter changed (lines h)
   \<and> (\<forall>s \<in> set (splitHunks [h]).
        \<exists>pre post. lines h = pre @ lines s @ post
          \<and> lines s \<noteq> [] \<and> (\<forall>l \<in> set (lines s). changed l)
          \<and> (pre = [] \<or> type (last pre) = Context)
          \<and> (post = [] \<or> type (hd post) = Context))"
proof (intro conjI ballI)
  have *: "\<forall>s \<in> set (splitHunks [h]). filter changed (lines s) = lines s"
    unfolding splitHunks_single by (auto dest!: splitLoop_subs simp: filter_id_conv)
  have eq: "map (\<lambda>s. filter changed (lines s)) (splitHunks [h]) = map lines (splitHunks [h])"
    by (rule map_cong [OF refl]) (use * in blast)
  show "concat (map (\<lambda>s. filter changed (lines s)) (splitHunks [h])) = filter changed (lines h)"
    unfolding eq unfolding splitHunks_single by (rule concat_splitLoop)
next
  fix s assume "s \<in> set (splitHunks [h])"
  then have "s \<in> set (splitLoop (lines h) (oldStart h) (newStart h) [])"
    by (simp add: splitHunks_single)
  from splitLoop_subs [OF this]
  show "\<exists>pre post. lines h = pre @ lines s @ post
          \<and> lines s \<noteq> [] \<and> (\<forall>l \<in> set (lines s). changed l)
          \<and> (pre = [] \<or> type (last pre) = Context)
          \<and> (post = [] \<or> type (hd post) = Context)"
    by blast
qed

declare toString10.simps [simp del]

lemma splitHunks_example:
  "splitHunks
     [\<lparr>oldStart = 5, oldCount = 3, newStart = 5, newCount = 4, header = ''@@ -5,3 +5,4 @@'',
       lines = [\<lparr>type = Context, content = ''a''\<rparr>, \<lparr>type = Add, content = ''b''\<rparr>,
                \<lparr>type = Context, content = ''c''\<rparr>, \<lparr>type = Remove, content = ''d''\<rparr>,
                \<lparr>type = Add, content = ''e''\<rparr>],
       rawLines = [''@@ -5,3 +5,4 @@'', '' a'', ''+b'', '' c'', ''-d'', ''+e''],
       hunk_id = None\<rparr>]
   = [\<lparr>oldStart = 6, oldCount = 0, newStart = 6, newCount = 1, header = ''@@ -5,0 +6,1 @@'',
       lines = [\<lparr>type = Add, content = ''b''\<rparr>], rawLines = [''@@ -5,0 +6,1 @@'', ''+b''],
       hunk_id = None\<rparr>,
      \<lparr>oldStart = 7, oldCount = 1, newStart = 8, newCount = 1, header = ''@@ -7,1 +8,1 @@'',
       lines = [\<lparr>type = Remove, content = ''d''\<rparr>, \<lparr>type = Add, content = ''e''\<rparr>],
       rawLines = [''@@ -7,1 +8,1 @@'', ''-d'', ''+e''], hunk_id = None\<rparr>]"
  by (simp add: splitHunks_def groupHunk_def groupHeader_def numberToString_def toString10.simps Let_def)


text \<open>The theorem at a hunk with two groups of changes, for its second sub-hunk.\<close>

theorem splitHunks_changed_lines_witness:
  "concat (map (\<lambda>s. filter changed (lines s))
     (splitHunks
       [\<lparr>oldStart = 5, oldCount = 3, newStart = 5, newCount = 4, header = ''@@ -5,3 +5,4 @@'',
         lines = [\<lparr>type = Context, content = ''a''\<rparr>, \<lparr>type = Add, content = ''b''\<rparr>,
                  \<lparr>type = Context, content = ''c''\<rparr>, \<lparr>type = Remove, content = ''d''\<rparr>,
                  \<lparr>type = Add, content = ''e''\<rparr>],
         rawLines = [''@@ -5,3 +5,4 @@'', '' a'', ''+b'', '' c'', ''-d'', ''+e''],
         hunk_id = None\<rparr>]))
   = [\<lparr>type = Add, content = ''b''\<rparr>, \<lparr>type = Remove, content = ''d''\<rparr>,
      \<lparr>type = Add, content = ''e''\<rparr>]
   \<and> (\<exists>pre post.
        [\<lparr>type = Context, content = ''a''\<rparr>, \<lparr>type = Add, content = ''b''\<rparr>,
         \<lparr>type = Context, content = ''c''\<rparr>, \<lparr>type = Remove, content = ''d''\<rparr>,
         \<lparr>type = Add, content = ''e''\<rparr>]
          = pre @ [\<lparr>type = Remove, content = ''d''\<rparr>, \<lparr>type = Add, content = ''e''\<rparr>] @ post
        \<and> (pre = [] \<or> type (last pre) = Context)
        \<and> (post = [] \<or> type (hd post) = Context))"
proof -
  let ?h = "\<lparr>oldStart = 5, oldCount = 3, newStart = 5, newCount = 4, header = ''@@ -5,3 +5,4 @@'',
         lines = [\<lparr>type = Context, content = ''a''\<rparr>, \<lparr>type = Add, content = ''b''\<rparr>,
                  \<lparr>type = Context, content = ''c''\<rparr>, \<lparr>type = Remove, content = ''d''\<rparr>,
                  \<lparr>type = Add, content = ''e''\<rparr>],
         rawLines = [''@@ -5,3 +5,4 @@'', '' a'', ''+b'', '' c'', ''-d'', ''+e''],
         hunk_id = None\<rparr>"
  let ?s = "\<lparr>oldStart = 7, oldCount = 1, newStart = 8, newCount = 1, header = ''@@ -7,1 +8,1 @@'',
       lines = [\<lparr>type = Remove, content = ''d''\<rparr>, \<lparr>type = Add, content = ''e''\<rparr>],
       rawLines = [''@@ -7,1 +8,1 @@'', ''-d'', ''+e''], hunk_id = None\<rparr>"
  have mem: "?s \<in> set (splitHunks [?h])"
    unfolding splitHunks_example by simp
  have a: "concat (map (\<lambda>s. filter changed (lines s)) (splitHunks [?h])) = filter changed (lines ?h)"
    using splitHunks_changed_lines [of ?h] by (rule conjunct1)
  have b: "\<exists>pre post. lines ?h = pre @ lines ?s @ post
          \<and> lines ?s \<noteq> [] \<and> (\<forall>l \<in> set (lines ?s). changed l)
          \<and> (pre = [] \<or> type (last pre) = Context)
          \<and> (post = [] \<or> type (hd post) = Context)"
    using splitHunks_changed_lines [of ?h] mem by blast
  from a have "concat (map (\<lambda>s. filter changed (lines s)) (splitHunks [?h]))
      = [\<lparr>type = Add, content = ''b''\<rparr>, \<lparr>type = Remove, content = ''d''\<rparr>,
         \<lparr>type = Add, content = ''e''\<rparr>]"
    by (simp add: changed_def)
  moreover from b have "\<exists>pre post. lines ?h = pre @ lines ?s @ post
        \<and> (pre = [] \<or> type (last pre) = Context)
        \<and> (post = [] \<or> type (hd post) = Context)"
    by blast
  ultimately show ?thesis by simp
qed

definition headerOf :: "diff_hunk \<Rightarrow> string" where
  "headerOf s =
     ''@@ -'' @ numberToString (if oldCount s = 0 then oldStart s - 1 else oldStart s)
     @ '','' @ numberToString (oldCount s)
     @ '' +'' @ numberToString (if newCount s = 0 then newStart s - 1 else newStart s)
     @ '','' @ numberToString (newCount s) @ '' @@''"

lemma runHunk_fields:
  "oldStart (runHunk ol nl run) = ol" "newStart (runHunk ol nl run) = nl"
  "oldCount (runHunk ol nl run) = countType Remove run"
  "newCount (runHunk ol nl run) = countType Add run"
  "rawLines (runHunk ol nl run) = header (runHunk ol nl run) # map rawOf run"
  "header (runHunk ol nl run) = headerOf (runHunk ol nl run)"
  by (simp_all add: runHunk_def groupHunk_def groupHeader_def headerOf_def Let_def)

lemma runHunk_props:
  assumes "s = runHunk ol nl run"
  shows "oldStart s = ol" "newStart s = nl" "oldCount s = countType Remove run"
    "newCount s = countType Add run" "rawLines s = header s # map rawOf run"
    "header s = headerOf s" "lines s = run"
  using assms by (simp_all add: runHunk_fields)

text \<open>
  A hunk whose starts, with every line cursor that \<open>splitHunks\<close> moves over its lines and
  the start minus one, and whose number of lines are safe integers.
\<close>

definition safeHunk :: "diff_hunk \<Rightarrow> bool" where
  "safeHunk h =
     (safeInteger (oldStart h - 1) \<and> safeInteger (oldStart h + int (length (lines h)))
      \<and> safeInteger (newStart h - 1) \<and> safeInteger (newStart h + int (length (lines h)))
      \<and> safeInteger (int (length (lines h))))"

lemma countType_bounds:
  "0 \<le> countType t ls" "countType t ls \<le> int (length ls)"
  "countType Context ls + countType Remove ls \<le> int (length ls)"
  "countType Context ls + countType Add ls \<le> int (length ls)"
proof -
  show "0 \<le> countType t ls" by (simp add: countType_def)
  show "countType t ls \<le> int (length ls)" by (simp add: countType_def)
  show "countType Context ls + countType Remove ls \<le> int (length ls)"
    by (induction ls) auto
  show "countType Context ls + countType Add ls \<le> int (length ls)"
    by (induction ls) auto
qed

lemma safe_between:
  "safeInteger (a - 1) \<Longrightarrow> safeInteger (a + n) \<Longrightarrow> 0 \<le> k \<Longrightarrow> k \<le> n \<Longrightarrow>
   safeInteger (a + k) \<and> safeInteger (a + k - 1)"
  by (simp add: safeInteger_def)

lemma safe_count: "safeInteger n \<Longrightarrow> 0 \<le> k \<Longrightarrow> k \<le> n \<Longrightarrow> safeInteger k"
  by (simp add: safeInteger_def)

text \<open>
  Claim C6. Take hunks whose starts and line cursors are safe integers. Every sub-hunk
  that \<open>splitHunks\<close> emits carries the header \<open>@@ -a,b +c,d @@\<close> where \<open>b\<close> and \<open>d\<close> are its old
  and new counts (the removed and the added lines of its run), \<open>a\<close> is its old start minus
  one when the old count is 0 and its old start otherwise, and \<open>c\<close> is its new start minus
  one when the new count is 0 and its new start otherwise. The old and new starts are the
  line cursors where the run starts: the start of the hunk plus the context and removed
  (respectively added) lines before the run. Every number that the header prints is a safe
  integer, so it is the number that the program computes and prints.
\<close>

theorem splitHunks_header_start:
  assumes "\<forall>h \<in> set hs. safeHunk h"
  shows "\<forall>s \<in> set (splitHunks hs).
     header s =
       ''@@ -'' @ numberToString (if oldCount s = 0 then oldStart s - 1 else oldStart s)
       @ '','' @ numberToString (oldCount s)
       @ '' +'' @ numberToString (if newCount s = 0 then newStart s - 1 else newStart s)
       @ '','' @ numberToString (newCount s) @ '' @@''
     \<and> rawLines s = header s # map rawOf (lines s)
     \<and> oldCount s = countType Remove (lines s)
     \<and> newCount s = countType Add (lines s)
     \<and> (\<exists>h \<in> set hs. \<exists>pre post. lines h = pre @ lines s @ post
          \<and> oldStart s = oldStart h + countType Context pre + countType Remove pre
          \<and> newStart s = newStart h + countType Context pre + countType Add pre)
     \<and> safeInteger (oldStart s) \<and> safeInteger (oldStart s - 1) \<and> safeInteger (oldCount s)
     \<and> safeInteger (newStart s) \<and> safeInteger (newStart s - 1) \<and> safeInteger (newCount s)"
proof
  fix s assume "s \<in> set (splitHunks hs)"
  then obtain h where h: "h \<in> set hs" "s \<in> set (splitLoop (lines h) (oldStart h) (newStart h) [])"
    by (auto simp: splitHunks_concat)
  from splitLoop_subs [OF h(2)] obtain pre post where
    p: "lines h = pre @ lines s @ post"
       "s = runHunk (oldStart h + countType Context pre + countType Remove pre)
                    (newStart h + countType Context pre + countType Add pre) (lines s)"
    by blast
  define ol where "ol = oldStart h + countType Context pre + countType Remove pre"
  define nl where "nl = newStart h + countType Context pre + countType Add pre"
  have s: "s = runHunk ol nl (lines s)" using p(2) by (simp add: ol_def nl_def)
  have f: "oldStart s = ol" "newStart s = nl" "oldCount s = countType Remove (lines s)"
    "newCount s = countType Add (lines s)" "rawLines s = header s # map rawOf (lines s)"
    "header s = headerOf s"
    using runHunk_props [OF s] by simp_all
  have ex: "\<exists>h \<in> set hs. \<exists>pre post. lines h = pre @ lines s @ post
          \<and> oldStart s = oldStart h + countType Context pre + countType Remove pre
          \<and> newStart s = newStart h + countType Context pre + countType Add pre"
    using h(1) p(1) f(1,2) unfolding ol_def nl_def by blast
  from assms h(1) have sh: "safeHunk h" by blast
  have len: "int (length pre) \<le> int (length (lines h))"
    "int (length (lines s)) \<le> int (length (lines h))"
    unfolding p(1) by simp_all
  have ko: "0 \<le> countType Context pre + countType Remove pre"
    "countType Context pre + countType Remove pre \<le> int (length (lines h))"
    using countType_bounds(1) [of Context pre] countType_bounds(1) [of Remove pre]
      countType_bounds(3) [of pre] len(1) by linarith+
  have kn: "0 \<le> countType Context pre + countType Add pre"
    "countType Context pre + countType Add pre \<le> int (length (lines h))"
    using countType_bounds(1) [of Context pre] countType_bounds(1) [of Add pre]
      countType_bounds(4) [of pre] len(1) by linarith+
  have so: "safeInteger (oldStart s) \<and> safeInteger (oldStart s - 1)"
    using safe_between [OF _ _ ko, of "oldStart h"] sh
    unfolding f(1) ol_def safeHunk_def by (simp add: add.assoc)
  have sn: "safeInteger (newStart s) \<and> safeInteger (newStart s - 1)"
    using safe_between [OF _ _ kn, of "newStart h"] sh
    unfolding f(2) nl_def safeHunk_def by (simp add: add.assoc)
  have co: "safeInteger (oldCount s)"
    unfolding f(3)
    using safe_count [of "int (length (lines h))" "countType Remove (lines s)"] sh
      countType_bounds(1,2) [of Remove "lines s"] len(2)
    unfolding safeHunk_def by linarith
  have cn: "safeInteger (newCount s)"
    unfolding f(4)
    using safe_count [of "int (length (lines h))" "countType Add (lines s)"] sh
      countType_bounds(1,2) [of Add "lines s"] len(2)
    unfolding safeHunk_def by linarith
  from f(6) have hd: "header s =
       ''@@ -'' @ numberToString (if oldCount s = 0 then oldStart s - 1 else oldStart s)
       @ '','' @ numberToString (oldCount s)
       @ '' +'' @ numberToString (if newCount s = 0 then newStart s - 1 else newStart s)
       @ '','' @ numberToString (newCount s) @ '' @@''"
    unfolding headerOf_def .
  from hd f(5) f(3) f(4) ex so co sn cn
  show "header s =
       ''@@ -'' @ numberToString (if oldCount s = 0 then oldStart s - 1 else oldStart s)
       @ '','' @ numberToString (oldCount s)
       @ '' +'' @ numberToString (if newCount s = 0 then newStart s - 1 else newStart s)
       @ '','' @ numberToString (newCount s) @ '' @@''
     \<and> rawLines s = header s # map rawOf (lines s)
     \<and> oldCount s = countType Remove (lines s)
     \<and> newCount s = countType Add (lines s)
     \<and> (\<exists>h \<in> set hs. \<exists>pre post. lines h = pre @ lines s @ post
          \<and> oldStart s = oldStart h + countType Context pre + countType Remove pre
          \<and> newStart s = newStart h + countType Context pre + countType Add pre)
     \<and> safeInteger (oldStart s) \<and> safeInteger (oldStart s - 1) \<and> safeInteger (oldCount s)
     \<and> safeInteger (newStart s) \<and> safeInteger (newStart s - 1) \<and> safeInteger (newCount s)"
    by blast
qed

text \<open>The theorem at the first sub-hunk of a hunk with two groups: a pure insertion.\<close>

theorem splitHunks_header_start_witness:
  "header (splitHunks
       [\<lparr>oldStart = 5, oldCount = 3, newStart = 5, newCount = 4, header = ''@@ -5,3 +5,4 @@'',
         lines = [\<lparr>type = Context, content = ''a''\<rparr>, \<lparr>type = Add, content = ''b''\<rparr>,
                  \<lparr>type = Context, content = ''c''\<rparr>, \<lparr>type = Remove, content = ''d''\<rparr>,
                  \<lparr>type = Add, content = ''e''\<rparr>],
         rawLines = [''@@ -5,3 +5,4 @@'', '' a'', ''+b'', '' c'', ''-d'', ''+e''],
         hunk_id = None\<rparr>] ! 0) = ''@@ -5,0 +6,1 @@''
   \<and> oldStart (splitHunks
       [\<lparr>oldStart = 5, oldCount = 3, newStart = 5, newCount = 4, header = ''@@ -5,3 +5,4 @@'',
         lines = [\<lparr>type = Context, content = ''a''\<rparr>, \<lparr>type = Add, content = ''b''\<rparr>,
                  \<lparr>type = Context, content = ''c''\<rparr>, \<lparr>type = Remove, content = ''d''\<rparr>,
                  \<lparr>type = Add, content = ''e''\<rparr>],
         rawLines = [''@@ -5,3 +5,4 @@'', '' a'', ''+b'', '' c'', ''-d'', ''+e''],
         hunk_id = None\<rparr>] ! 0) = 6"
proof -
  let ?h = "\<lparr>oldStart = 5, oldCount = 3, newStart = 5, newCount = 4, header = ''@@ -5,3 +5,4 @@'',
         lines = [\<lparr>type = Context, content = ''a''\<rparr>, \<lparr>type = Add, content = ''b''\<rparr>,
                  \<lparr>type = Context, content = ''c''\<rparr>, \<lparr>type = Remove, content = ''d''\<rparr>,
                  \<lparr>type = Add, content = ''e''\<rparr>],
         rawLines = [''@@ -5,3 +5,4 @@'', '' a'', ''+b'', '' c'', ''-d'', ''+e''],
         hunk_id = None\<rparr>"
  let ?s = "splitHunks [?h] ! 0"
  have s: "?s = \<lparr>oldStart = 6, oldCount = 0, newStart = 6, newCount = 1, header = ''@@ -5,0 +6,1 @@'',
       lines = [\<lparr>type = Add, content = ''b''\<rparr>], rawLines = [''@@ -5,0 +6,1 @@'', ''+b''],
       hunk_id = None\<rparr>"
    unfolding splitHunks_example by simp
  have mem: "?s \<in> set (splitHunks [?h])"
    unfolding splitHunks_example by simp
  have safe: "\<forall>h \<in> set [?h]. safeHunk h"
    by (simp add: safeHunk_def safeInteger_def)
  from splitHunks_header_start [OF safe] mem
  have "header ?s =
       ''@@ -'' @ numberToString (if oldCount ?s = 0 then oldStart ?s - 1 else oldStart ?s)
       @ '','' @ numberToString (oldCount ?s)
       @ '' +'' @ numberToString (if newCount ?s = 0 then newStart ?s - 1 else newStart ?s)
       @ '','' @ numberToString (newCount ?s) @ '' @@''"
    by blast
  then have "header ?s = ''@@ -5,0 +6,1 @@''"
    unfolding s by (simp add: numberToString_def toString10.simps)
  moreover have "oldStart ?s = 6" unfolding s by simp
  ultimately show ?thesis by blast
qed

section \<open>Properties of the hunk identities\<close>

declare toString16.simps [simp del]

lemma length_toString16: "0 < k \<Longrightarrow> n < 16 ^ k \<Longrightarrow> length (toString16 n) \<le> k"
proof (induction n arbitrary: k rule: toString16.induct)
  case (1 n)
  show ?case
  proof (cases "n < 16")
    case True
    with 1(2) show ?thesis by (subst toString16.simps) simp
  next
    case False
    with 1(2,3) obtain k' where k: "k = Suc k'" by (cases k) auto
    with False 1(3) have "0 < k'" by (cases k') auto
    moreover from k 1(3) have "n div 16 < 16 ^ k'"
      by (simp add: less_mult_imp_div_less mult.commute)
    ultimately have "length (toString16 (n div 16)) \<le> k'" using 1(1) [OF False] by blast
    with False k show ?thesis by (subst toString16.simps) simp
  qed
qed

lemma length_fnv1a: "length (fnv1a s) = 8"
proof -
  have "unat w < 16 ^ 8" for w :: "32 word"
    using unsigned_less [of w, where 'a = nat] by simp
  then have "length (toString16 (unat w)) \<le> 8" for w :: "32 word"
    by (intro length_toString16) simp_all
  then show ?thesis by (simp add: fnv1a_def padStart_def Let_def)
qed

lemma toString10_inj: "toString10 n = toString10 m \<Longrightarrow> n = m"
proof (induction n arbitrary: m rule: toString10.induct)
  case (1 n)
  have d: "distinct ''0123456789''" by simp
  have len: "10 \<le> x \<Longrightarrow> 2 \<le> length (toString10 x)" for x
    by (subst toString10.simps, subst toString10.simps) simp
  show ?case
  proof (cases "n < 10")
    case True
    show ?thesis
    proof (cases "m < 10")
      case m: True
      from 1(2) True m have "''0123456789'' ! n = ''0123456789'' ! m"
        by (simp add: toString10.simps)
      with nth_eq_iff_index_eq [OF d, of n m] True m show ?thesis by simp
    next
      case False
      then have "2 \<le> length (toString10 m)" by (simp add: len)
      moreover from True have "length (toString10 n) = 1" by (simp add: toString10.simps)
      ultimately show ?thesis using 1(2) by simp
    qed
  next
    case False
    show ?thesis
    proof (cases "m < 10")
      case True
      then have "length (toString10 m) = 1" by (simp add: toString10.simps)
      moreover from False have "2 \<le> length (toString10 n)" by (simp add: len)
      ultimately show ?thesis using 1(2) by simp
    next
      case m: False
      from 1(2) False m have
        "toString10 (n div 10) @ [''0123456789'' ! (n mod 10)]
         = toString10 (m div 10) @ [''0123456789'' ! (m mod 10)]"
        by (simp add: toString10.simps [of n] toString10.simps [of m])
      then have a: "toString10 (n div 10) = toString10 (m div 10)"
        and b: "''0123456789'' ! (n mod 10) = ''0123456789'' ! (m mod 10)"
        by simp_all
      from 1(1) [OF False a] have "n div 10 = m div 10" .
      moreover from b nth_eq_iff_index_eq [OF d, of "n mod 10" "m mod 10"]
      have "n mod 10 = m mod 10" by simp
      ultimately show ?thesis by (metis div_mult_mod_eq)
    qed
  qed
qed

definition label :: "string \<Rightarrow> nat \<Rightarrow> string" where
  "label b k = (if k = 1 then b else b @ ''-'' @ toString10 k)"

definition cnt :: "string list \<Rightarrow> (string \<rightharpoonup> nat)" where
  "cnt xs = (\<lambda>b. if count_list xs b = 0 then None else Some (count_list xs b))"

definition firstIds :: "string list \<Rightarrow> string list" where
  "firstIds xs = map (\<lambda>i. label (xs ! i) (count_list (take (Suc i) xs) (xs ! i))) [0..<length xs]"

lemma firstIds_Nil [simp]: "firstIds [] = []"
  by (simp add: firstIds_def)

lemma cnt_Nil [simp]: "cnt [] = Map.empty"
  by (simp add: cnt_def)

lemma firstIds_snoc: "firstIds (xs @ [b]) = firstIds xs @ [label b (count_list xs b + 1)]"
  by (simp add: firstIds_def nth_append)

lemma cnt_snoc: "cnt (xs @ [b]) = (cnt xs)(b \<mapsto> count_list xs b + 1)"
  by (auto simp: cnt_def fun_eq_iff)

lemma idsLoop_inv:
  "idsLoop fp hs (firstIds pre) (cnt pre)
   = (firstIds (pre @ map (computeHunkId fp) hs), cnt (pre @ map (computeHunkId fp) hs))"
proof (induction hs arbitrary: pre)
  case Nil
  show ?case by simp
next
  case (Cons h hs)
  have c: "(case cnt pre b of None \<Rightarrow> 0 | Some c \<Rightarrow> c) = count_list pre b" for b
    by (simp add: cnt_def)
  have "idsLoop fp (h # hs) (firstIds pre) (cnt pre)
      = idsLoop fp hs (firstIds (pre @ [computeHunkId fp h])) (cnt (pre @ [computeHunkId fp h]))"
    by (simp add: Let_def c firstIds_snoc cnt_snoc label_def)
  then show ?case by (simp add: Cons.IH)
qed

lemma computeHunkIds_eq:
  "computeHunkIds fp hs
   = map (relabelFirst (cnt (map (computeHunkId fp) hs))) (firstIds (map (computeHunkId fp) hs))"
  using idsLoop_inv [of fp hs "[]"] by (simp add: computeHunkIds_def)

lemma length_firstIds [simp]: "length (firstIds xs) = length xs"
  by (simp add: firstIds_def)

lemma length_computeHunkIds: "length (computeHunkIds fp hs) = length hs"
  by (simp add: computeHunkIds_eq)

lemma count_take_pos: "i < length xs \<Longrightarrow> 0 < count_list (take (Suc i) xs) (xs ! i)"
  by (simp add: take_Suc_conv_app_nth)

lemma count_take_le: "count_list (take n xs) b \<le> count_list xs b"
proof -
  have "count_list xs b = count_list (take n xs) b + count_list (drop n xs) b"
    by (metis append_take_drop_id count_list_append)
  then show ?thesis by simp
qed

lemma count_take_mono:
  assumes "i < j" "j < length xs" "xs ! j = b"
  shows "count_list (take (Suc i) xs) b < count_list (take (Suc j) xs) b"
proof -
  have "take (Suc j) xs = take (Suc i) xs @ drop (Suc i) (take j xs) @ [xs ! j]"
    using assms
    by (metis Suc_leI append_assoc append_take_drop_id min.absorb1 take_Suc_conv_app_nth take_take)
  with assms(3) show ?thesis by simp
qed

text \<open>The identity of the hunk at index i, in closed form.\<close>

definition finalId :: "string list \<Rightarrow> nat \<Rightarrow> string" where
  "finalId bs i =
     (if count_list bs (bs ! i) = 1 then bs ! i
      else bs ! i @ ''-'' @ toString10 (count_list (take (Suc i) bs) (bs ! i)))"

lemma toString10_1: "toString10 (Suc 0) = ''1''"
  by (simp add: toString10.simps)

lemma relabel_firstIds_nth:
  assumes i: "i < length bs" and len: "\<forall>b \<in> set bs. length b = 8"
  shows "relabelFirst (cnt bs) (firstIds bs ! i) = finalId bs i"
proof -
  let ?b = "bs ! i"
  let ?k = "count_list (take (Suc i) bs) ?b"
  let ?n = "count_list bs ?b"
  have k: "0 < ?k" using i by (rule count_take_pos)
  have kn: "?k \<le> ?n" by (rule count_take_le)
  have f: "firstIds bs ! i = label ?b ?k" using i by (simp add: firstIds_def)
  show ?thesis
  proof (cases "?k = 1")
    case True
    then have "firstIds bs ! i = ?b" using f by (simp add: label_def)
    moreover have "relabelFirst (cnt bs) ?b = (if ?n = 1 then ?b else ?b @ ''-1'')"
      using k kn by (auto simp: relabelFirst_def cnt_def)
    ultimately show ?thesis using True by (simp add: finalId_def toString10_1)
  next
    case False
    then have id: "firstIds bs ! i = ?b @ ''-'' @ toString10 ?k" using f by (simp add: label_def)
    have "length ?b = 8" using i len by simp
    then have "length (?b @ ''-'' @ toString10 ?k) \<noteq> 8" by simp
    then have "?b @ ''-'' @ toString10 ?k \<notin> set bs" using len by blast
    then have "count_list bs (?b @ ''-'' @ toString10 ?k) = 0" by (simp add: count_list_0_iff)
    then have "relabelFirst (cnt bs) (?b @ ''-'' @ toString10 ?k) = ?b @ ''-'' @ toString10 ?k"
      by (simp add: relabelFirst_def cnt_def)
    moreover have "?n \<noteq> 1" using False k kn by linarith
    ultimately show ?thesis using id by (simp add: finalId_def)
  qed
qed

lemma computeHunkIds_nth:
  assumes "i < length hs"
  shows "computeHunkIds fp hs ! i = finalId (map (computeHunkId fp) hs) i"
proof -
  have "\<forall>b \<in> set (map (computeHunkId fp) hs). length b = 8"
    by (auto simp: computeHunkId_def Let_def length_fnv1a)
  from relabel_firstIds_nth [OF _ this, of i] assms show ?thesis
    by (simp add: computeHunkIds_eq)
qed

lemma take8_finalId:
  assumes "i < length bs" "\<forall>b \<in> set bs. length b = 8"
  shows "take 8 (finalId bs i) = bs ! i"
  using assms by (simp add: finalId_def)

lemma finalId_inj:
  assumes i: "i < length bs" and j: "j < length bs" and ne: "i \<noteq> j"
    and len: "\<forall>b \<in> set bs. length b = 8"
  shows "finalId bs i \<noteq> finalId bs j"
proof (cases "bs ! i = bs ! j")
  case False
  with take8_finalId [OF i len] take8_finalId [OF j len] show ?thesis by metis
next
  case True
  let ?b = "bs ! i"
  have lt: "a < c \<Longrightarrow> c < length bs \<Longrightarrow> bs ! a = bs ! c \<Longrightarrow> 1 < count_list bs (bs ! a)
      \<and> count_list (take (Suc a) bs) (bs ! a) < count_list (take (Suc c) bs) (bs ! c)" for a c
  proof -
    assume a: "a < c" "c < length bs" "bs ! a = bs ! c"
    have m: "count_list (take (Suc a) bs) (bs ! a) < count_list (take (Suc c) bs) (bs ! c)"
      using count_take_mono [OF a(1,2) refl] a(3) by simp
    moreover have "0 < count_list (take (Suc a) bs) (bs ! a)"
      using a by (intro count_take_pos) simp
    moreover have "count_list (take (Suc c) bs) (bs ! c) \<le> count_list bs (bs ! c)"
      by (rule count_take_le)
    ultimately show ?thesis using a(3) by simp
  qed
  from ne consider "i < j" | "j < i" by linarith
  then show ?thesis
  proof cases
    case 1
    from lt [OF 1 j True] True show ?thesis
      by (auto simp: finalId_def dest: toString10_inj)
  next
    case 2
    from lt [OF 2 i True [symmetric]] True show ?thesis
      by (auto simp: finalId_def dest: toString10_inj)
  qed
qed


lemma base_length: "\<forall>b \<in> set (map (computeHunkId fp) hs). length b = 8"
  by (auto simp: computeHunkId_def Let_def length_fnv1a)

lemma computeHunkId_changed:
  "filter changed (lines h1) = filter changed (lines h2) \<Longrightarrow> computeHunkId fp h1 = computeHunkId fp h2"
proof -
  have "changed = (\<lambda>l. type l = Add \<or> type l = Remove)" by (simp add: changed_def fun_eq_iff)
  then show "filter changed (lines h1) = filter changed (lines h2) \<Longrightarrow> ?thesis"
    by (simp add: computeHunkId_def)
qed

text \<open>
  Claim C10. For every file path and every list of sub-hunks, \<open>computeHunkIds\<close> returns one
  identifier per sub-hunk, in input order (the identifier at an index starts with the
  8-character hash of the sub-hunk at that index), and the identifiers are pairwise distinct.
  The statement is about hash values, so it covers sub-hunks of different content whose
  hashes collide.
\<close>

theorem computeHunkIds_distinct:
  "length (computeHunkIds fp hs) = length hs
   \<and> distinct (computeHunkIds fp hs)
   \<and> map (take 8) (computeHunkIds fp hs) = map (computeHunkId fp) hs"
proof (intro conjI)
  let ?bs = "map (computeHunkId fp) hs"
  show "length (computeHunkIds fp hs) = length hs" by (rule length_computeHunkIds)
  show "distinct (computeHunkIds fp hs)"
    unfolding distinct_conv_nth length_computeHunkIds
  proof (intro allI impI)
    fix i j assume "i < length hs" "j < length hs" "i \<noteq> j"
    then show "computeHunkIds fp hs ! i \<noteq> computeHunkIds fp hs ! j"
      using finalId_inj [of i ?bs j] base_length [of fp hs] by (simp add: computeHunkIds_nth)
  qed
  show "map (take 8) (computeHunkIds fp hs) = map (computeHunkId fp) hs"
  proof (rule nth_equalityI)
    show "length (map (take 8) (computeHunkIds fp hs)) = length (map (computeHunkId fp) hs)"
      by (simp add: length_computeHunkIds)
    fix i assume "i < length (map (take 8) (computeHunkIds fp hs))"
    then have i: "i < length hs" by (simp add: length_computeHunkIds)
    then show "map (take 8) (computeHunkIds fp hs) ! i = map (computeHunkId fp) hs ! i"
      using take8_finalId [of i ?bs] base_length [of fp hs]
      by (simp add: length_computeHunkIds computeHunkIds_nth)
  qed
qed

text \<open>
  Claim C4. In one batch, a sub-hunk whose hash occurs once gets the bare hash; otherwise the
  sub-hunk gets the hash followed by \<open>-k\<close>, where \<open>k\<close> counts the occurrences of the hash up to
  and including it, so the first occurrence is \<open>-1\<close>, the second \<open>-2\<close>, and so on. Two
  sub-hunks with the same changed content get distinct identities, numbered in input order.
\<close>

theorem computeHunkIds_suffixes:
  assumes "i < length hs"
  shows "computeHunkIds fp hs ! i =
      (if count_list (map (computeHunkId fp) hs) (computeHunkId fp (hs ! i)) = 1
       then computeHunkId fp (hs ! i)
       else computeHunkId fp (hs ! i) @ ''-''
            @ toString10 (count_list (take (Suc i) (map (computeHunkId fp) hs)) (computeHunkId fp (hs ! i))))
    \<and> (\<forall>j. i < j \<and> j < length hs \<and> filter changed (lines (hs ! j)) = filter changed (lines (hs ! i))
          \<longrightarrow> computeHunkIds fp hs ! j \<noteq> computeHunkIds fp hs ! i
            \<and> computeHunkIds fp hs ! i = computeHunkId fp (hs ! i) @ ''-''
                 @ toString10 (count_list (take (Suc i) (map (computeHunkId fp) hs)) (computeHunkId fp (hs ! i)))
            \<and> computeHunkIds fp hs ! j = computeHunkId fp (hs ! i) @ ''-''
                 @ toString10 (count_list (take (Suc j) (map (computeHunkId fp) hs)) (computeHunkId fp (hs ! i)))
            \<and> 1 \<le> count_list (take (Suc i) (map (computeHunkId fp) hs)) (computeHunkId fp (hs ! i))
            \<and> count_list (take (Suc i) (map (computeHunkId fp) hs)) (computeHunkId fp (hs ! i))
                < count_list (take (Suc j) (map (computeHunkId fp) hs)) (computeHunkId fp (hs ! i)))"
proof (intro conjI allI impI)
  let ?bs = "map (computeHunkId fp) hs"
  show a: "computeHunkIds fp hs ! i =
      (if count_list ?bs (computeHunkId fp (hs ! i)) = 1
       then computeHunkId fp (hs ! i)
       else computeHunkId fp (hs ! i) @ ''-''
            @ toString10 (count_list (take (Suc i) ?bs) (computeHunkId fp (hs ! i))))"
    using assms by (simp add: computeHunkIds_nth finalId_def)
  fix j
  assume "i < j \<and> j < length hs \<and> filter changed (lines (hs ! j)) = filter changed (lines (hs ! i))"
  then have ij: "i < j" and j: "j < length hs"
    and same: "computeHunkId fp (hs ! j) = computeHunkId fp (hs ! i)"
    by (auto dest: computeHunkId_changed)
  have bj: "?bs ! j = computeHunkId fp (hs ! i)" using j same by simp
  have bi: "?bs ! i = computeHunkId fp (hs ! i)" using assms by simp
  have m: "count_list (take (Suc i) ?bs) (computeHunkId fp (hs ! i))
      < count_list (take (Suc j) ?bs) (computeHunkId fp (hs ! i))"
    using count_take_mono [of i j ?bs, OF ij _ bj] j by simp
  have p: "0 < count_list (take (Suc i) ?bs) (computeHunkId fp (hs ! i))"
    using count_take_pos [of i ?bs] assms by simp
  have le: "count_list (take (Suc j) ?bs) (computeHunkId fp (hs ! i))
      \<le> count_list ?bs (computeHunkId fp (hs ! i))"
    by (rule count_take_le)
  from m p le have n: "count_list ?bs (computeHunkId fp (hs ! i)) \<noteq> 1" by linarith
  show "computeHunkIds fp hs ! j \<noteq> computeHunkIds fp hs ! i"
    using finalId_inj [of j ?bs i] base_length [of fp hs] ij j assms
    by (simp add: computeHunkIds_nth)
  show "computeHunkIds fp hs ! i = computeHunkId fp (hs ! i) @ ''-''
      @ toString10 (count_list (take (Suc i) ?bs) (computeHunkId fp (hs ! i)))"
    using a n by simp
  show "computeHunkIds fp hs ! j = computeHunkId fp (hs ! i) @ ''-''
      @ toString10 (count_list (take (Suc j) ?bs) (computeHunkId fp (hs ! i)))"
    using j n same by (simp add: computeHunkIds_nth finalId_def)
  show "1 \<le> count_list (take (Suc i) ?bs) (computeHunkId fp (hs ! i))" using p by simp
  show "count_list (take (Suc i) ?bs) (computeHunkId fp (hs ! i))
      < count_list (take (Suc j) ?bs) (computeHunkId fp (hs ! i))" by (rule m)
qed

lemma fnv1a_example: "fnv1a (''a.txt'' @ [CHR 0x00] @ ''add:x'') = ''44702577''"
  apply (simp add: fnv1a_def padStart_def)
  apply (simp add: toString16.simps)
  done

text \<open>The theorem at two insertions of the same line at different places of one file.\<close>

theorem computeHunkIds_suffixes_witness:
  "computeHunkIds ''a.txt''
     [\<lparr>oldStart = 1, oldCount = 0, newStart = 1, newCount = 1, header = ''@@ -0,0 +1,1 @@'',
       lines = [\<lparr>type = Add, content = ''x''\<rparr>], rawLines = [''@@ -0,0 +1,1 @@'', ''+x''],
       hunk_id = None\<rparr>,
      \<lparr>oldStart = 9, oldCount = 0, newStart = 10, newCount = 1, header = ''@@ -8,0 +10,1 @@'',
       lines = [\<lparr>type = Add, content = ''x''\<rparr>], rawLines = [''@@ -8,0 +10,1 @@'', ''+x''],
       hunk_id = None\<rparr>] ! 0 = ''44702577-1''
   \<and> computeHunkIds ''a.txt''
     [\<lparr>oldStart = 1, oldCount = 0, newStart = 1, newCount = 1, header = ''@@ -0,0 +1,1 @@'',
       lines = [\<lparr>type = Add, content = ''x''\<rparr>], rawLines = [''@@ -0,0 +1,1 @@'', ''+x''],
       hunk_id = None\<rparr>,
      \<lparr>oldStart = 9, oldCount = 0, newStart = 10, newCount = 1, header = ''@@ -8,0 +10,1 @@'',
       lines = [\<lparr>type = Add, content = ''x''\<rparr>], rawLines = [''@@ -8,0 +10,1 @@'', ''+x''],
       hunk_id = None\<rparr>] ! 1 = ''44702577-2''"
proof -
  let ?a = "\<lparr>oldStart = 1, oldCount = 0, newStart = 1, newCount = 1, header = ''@@ -0,0 +1,1 @@'',
       lines = [\<lparr>type = Add, content = ''x''\<rparr>], rawLines = [''@@ -0,0 +1,1 @@'', ''+x''],
       hunk_id = None\<rparr>"
  let ?b = "\<lparr>oldStart = 9, oldCount = 0, newStart = 10, newCount = 1, header = ''@@ -8,0 +10,1 @@'',
       lines = [\<lparr>type = Add, content = ''x''\<rparr>], rawLines = [''@@ -8,0 +10,1 @@'', ''+x''],
       hunk_id = None\<rparr>"
  have ha: "computeHunkId ''a.txt'' ?a = ''44702577''"
    using fnv1a_example by (simp add: computeHunkId_def)
  have hb: "computeHunkId ''a.txt'' ?b = ''44702577''"
    using fnv1a_example by (simp add: computeHunkId_def)
  have i: "(0::nat) < length [?a, ?b]" by simp
  have j: "(0::nat) < 1 \<and> (1::nat) < length [?a, ?b]
      \<and> filter changed (lines ([?a, ?b] ! 1)) = filter changed (lines ([?a, ?b] ! 0))"
    by simp
  from computeHunkIds_suffixes [OF i, of "''a.txt''"] j
  have "computeHunkIds ''a.txt'' [?a, ?b] ! 0 = computeHunkId ''a.txt'' ([?a, ?b] ! 0) @ ''-''
          @ toString10 (count_list (take (Suc 0) (map (computeHunkId ''a.txt'') [?a, ?b]))
              (computeHunkId ''a.txt'' ([?a, ?b] ! 0)))"
    and "computeHunkIds ''a.txt'' [?a, ?b] ! 1 = computeHunkId ''a.txt'' ([?a, ?b] ! 0) @ ''-''
          @ toString10 (count_list (take (Suc 1) (map (computeHunkId ''a.txt'') [?a, ?b]))
              (computeHunkId ''a.txt'' ([?a, ?b] ! 0)))"
    by blast+
  then show ?thesis
    unfolding nth_Cons_0 list.map ha hb by (simp add: toString10.simps)
qed

text \<open>The same batch: two identifiers, and they differ.\<close>

theorem computeHunkIds_distinct_witness:
  "length (computeHunkIds ''a.txt''
     [\<lparr>oldStart = 1, oldCount = 0, newStart = 1, newCount = 1, header = ''@@ -0,0 +1,1 @@'',
       lines = [\<lparr>type = Add, content = ''x''\<rparr>], rawLines = [''@@ -0,0 +1,1 @@'', ''+x''],
       hunk_id = None\<rparr>,
      \<lparr>oldStart = 9, oldCount = 0, newStart = 10, newCount = 1, header = ''@@ -8,0 +10,1 @@'',
       lines = [\<lparr>type = Add, content = ''x''\<rparr>], rawLines = [''@@ -8,0 +10,1 @@'', ''+x''],
       hunk_id = None\<rparr>]) = 2
   \<and> distinct (computeHunkIds ''a.txt''
     [\<lparr>oldStart = 1, oldCount = 0, newStart = 1, newCount = 1, header = ''@@ -0,0 +1,1 @@'',
       lines = [\<lparr>type = Add, content = ''x''\<rparr>], rawLines = [''@@ -0,0 +1,1 @@'', ''+x''],
       hunk_id = None\<rparr>,
      \<lparr>oldStart = 9, oldCount = 0, newStart = 10, newCount = 1, header = ''@@ -8,0 +10,1 @@'',
       lines = [\<lparr>type = Add, content = ''x''\<rparr>], rawLines = [''@@ -8,0 +10,1 @@'', ''+x''],
       hunk_id = None\<rparr>])"
  using computeHunkIds_distinct [of "''a.txt''"
     "[\<lparr>oldStart = 1, oldCount = 0, newStart = 1, newCount = 1, header = ''@@ -0,0 +1,1 @@'',
       lines = [\<lparr>type = Add, content = ''x''\<rparr>], rawLines = [''@@ -0,0 +1,1 @@'', ''+x''],
       hunk_id = None\<rparr>,
      \<lparr>oldStart = 9, oldCount = 0, newStart = 10, newCount = 1, header = ''@@ -8,0 +10,1 @@'',
       lines = [\<lparr>type = Add, content = ''x''\<rparr>], rawLines = [''@@ -8,0 +10,1 @@'', ''+x''],
       hunk_id = None\<rparr>]"]
  by simp

section \<open>Properties of the review state\<close>

text \<open>The status that the manager holds for an identity of a file, if any.\<close>

definition statusOf :: "state_manager \<Rightarrow> string \<Rightarrow> string \<Rightarrow> hunk_status option" where
  "statusOf m p i = (case map_of (statuses m) p of None \<Rightarrow> None | Some mp \<Rightarrow> map_of mp i)"

lemma statuses_persist [simp]: "statuses (persist m) = statuses m"
  by (simp add: persist_def split: option.splits)

lemma undoStack_persist [simp]: "undoStack (persist m) = undoStack m"
  by (simp add: persist_def split: option.splits)

lemma gitCalls_persist [simp]: "gitCalls (persist m) = gitCalls m"
  by (simp add: persist_def split: option.splits)

lemma statusOf_persist [simp]: "statusOf (persist m) = statusOf m"
  by (simp add: statusOf_def fun_eq_iff)

text \<open>The map that syncStatuses builds from the hunks and a function giving each status.\<close>

lemma map_of_fold_ids:
  "map_of (fold (\<lambda>hunk mp. case truthyId hunk of Some i \<Rightarrow> AList.update i (f i) mp | None \<Rightarrow> mp) hs acc) i
   = (if \<exists>h \<in> set hs. truthyId h = Some i then Some (f i) else map_of acc i)"
proof (induction hs arbitrary: acc)
  case Nil
  show ?case by simp
next
  case (Cons h hs)
  show ?case
    by (cases "truthyId h") (auto simp: Cons.IH update_conv')
qed

definition syncedMap :: "diff_file \<Rightarrow> state_manager \<Rightarrow> status_map" where
  "syncedMap file m =
     fold (\<lambda>hunk mp. case truthyId hunk of
              Some i \<Rightarrow> AList.update i (case statusOf m (pathOf file) i of Some s \<Rightarrow> s | None \<Rightarrow> Pending) mp
            | None \<Rightarrow> mp) (hunks file) []"

lemma syncStatuses_statuses:
  "statuses (snd (syncStatuses file m)) = AList.update (pathOf file) (syncedMap file m) (statuses m)"
proof (cases "map_of (statuses m) (pathOf file)")
  case None
  then show ?thesis
    by (simp add: syncStatuses_def syncedMap_def statusOf_def Let_def cong: option.case_cong)
next
  case (Some existing)
  show ?thesis
  proof (cases "existing = []")
    case True
    with Some show ?thesis
      by (simp add: syncStatuses_def syncedMap_def statusOf_def Let_def cong: option.case_cong)
  next
    case False
    with Some show ?thesis
      by (simp add: syncStatuses_def syncedMap_def statusOf_def Let_def cong: option.case_cong)
  qed
qed

lemma syncedMap_lookup:
  "map_of (syncedMap file m) i =
     (if \<exists>h \<in> set (hunks file). truthyId h = Some i
      then Some (case statusOf m (pathOf file) i of Some s \<Rightarrow> s | None \<Rightarrow> Pending) else None)"
  unfolding syncedMap_def by (simp add: map_of_fold_ids)

lemma syncStatuses_result:
  "fst (syncStatuses file m) =
     map (\<lambda>h. case truthyId h of
                 Some i \<Rightarrow> (case statusOf m (pathOf file) i of Some s \<Rightarrow> s | None \<Rightarrow> Pending)
               | None \<Rightarrow> Pending) (hunks file)"
proof (cases "map_of (statuses m) (pathOf file)")
  case None
  then show ?thesis
    by (auto simp: syncStatuses_def statusOf_def Let_def split: option.splits)
next
  case (Some existing)
  show ?thesis
  proof (cases "existing = []")
    case True
    with Some show ?thesis
      by (auto simp: syncStatuses_def statusOf_def Let_def split: option.splits)
  next
    case False
    with Some show ?thesis
      by (auto simp: syncStatuses_def statusOf_def Let_def map_of_fold_ids split: option.splits)
  qed
qed

text \<open>
  Claim C2. For every file and every prior state, \<open>syncStatuses\<close> replaces the status map of
  the file's path by a map whose keys are exactly the identities of the file's hunks (an
  identity is an \<open>id\<close> that is set and not empty, as the code tests it): an identity that the
  prior map held keeps its status and any other identity is \<open>pending\<close>, so an identity that is
  no longer present is dropped. The maps of the other paths are unchanged. The returned
  array follows \<open>file.hunks\<close>; a hunk whose identity was \<open>approved\<close> before is \<open>approved\<close>
  in it, at whatever index the hunk now stands.
\<close>

theorem syncStatuses_reconciles:
  "(\<exists>newMap. map_of (statuses (snd (syncStatuses file m))) (pathOf file) = Some newMap
      \<and> fst ` set newMap = {i. \<exists>h \<in> set (hunks file). truthyId h = Some i}
      \<and> distinct (map fst newMap)
      \<and> (\<forall>i \<in> fst ` set newMap.
            map_of newMap i = Some (case statusOf m (pathOf file) i of Some s \<Rightarrow> s | None \<Rightarrow> Pending)))
   \<and> (\<forall>p. p \<noteq> pathOf file \<longrightarrow>
         map_of (statuses (snd (syncStatuses file m))) p = map_of (statuses m) p)
   \<and> length (fst (syncStatuses file m)) = length (hunks file)
   \<and> (\<forall>k < length (hunks file).
         fst (syncStatuses file m) ! k =
           (case truthyId (hunks file ! k) of
              Some i \<Rightarrow> (case statusOf m (pathOf file) i of Some s \<Rightarrow> s | None \<Rightarrow> Pending)
            | None \<Rightarrow> Pending))
   \<and> (\<forall>k i. k < length (hunks file) \<and> truthyId (hunks file ! k) = Some i
           \<and> statusOf m (pathOf file) i = Some Approved
         \<longrightarrow> fst (syncStatuses file m) ! k = Approved)"
proof (intro conjI)
  have dom: "fst ` set (syncedMap file m) = {i. \<exists>h \<in> set (hunks file). truthyId h = Some i}"
  proof -
    have "dom (map_of (syncedMap file m)) = {i. \<exists>h \<in> set (hunks file). truthyId h = Some i}"
      by (auto simp: syncedMap_lookup dom_def)
    then show ?thesis by (simp add: dom_map_of_conv_image_fst)
  qed
  have dist: "distinct (map fst (syncedMap file m))"
  proof -
    have "distinct (map fst acc) \<Longrightarrow>
      distinct (map fst (fold (\<lambda>hunk mp. case truthyId hunk of
              Some i \<Rightarrow> AList.update i (f i) mp | None \<Rightarrow> mp) hs acc))" for f hs and acc :: status_map
      by (induction hs arbitrary: acc) (auto simp: distinct_update split: option.splits)
    from this [of "[]"] show ?thesis by (simp add: syncedMap_def)
  qed
  show "\<exists>newMap. map_of (statuses (snd (syncStatuses file m))) (pathOf file) = Some newMap
      \<and> fst ` set newMap = {i. \<exists>h \<in> set (hunks file). truthyId h = Some i}
      \<and> distinct (map fst newMap)
      \<and> (\<forall>i \<in> fst ` set newMap.
            map_of newMap i = Some (case statusOf m (pathOf file) i of Some s \<Rightarrow> s | None \<Rightarrow> Pending))"
    apply (rule exI [of _ "syncedMap file m"])
    using dom dist by (auto simp: syncStatuses_statuses update_conv' syncedMap_lookup)
  show "\<forall>p. p \<noteq> pathOf file \<longrightarrow>
         map_of (statuses (snd (syncStatuses file m))) p = map_of (statuses m) p"
    by (simp add: syncStatuses_statuses update_conv')
  show "length (fst (syncStatuses file m)) = length (hunks file)"
    by (simp add: syncStatuses_result)
  show "\<forall>k < length (hunks file).
         fst (syncStatuses file m) ! k =
           (case truthyId (hunks file ! k) of
              Some i \<Rightarrow> (case statusOf m (pathOf file) i of Some s \<Rightarrow> s | None \<Rightarrow> Pending)
            | None \<Rightarrow> Pending)"
    by (simp add: syncStatuses_result)
  show "\<forall>k i. k < length (hunks file) \<and> truthyId (hunks file ! k) = Some i
           \<and> statusOf m (pathOf file) i = Some Approved
         \<longrightarrow> fst (syncStatuses file m) ! k = Approved"
    by (simp add: syncStatuses_result)
qed


text \<open>
  The theorem after a new hunk is inserted before an approved one: the approved hunk keeps
  its status at its new index.
\<close>

theorem syncStatuses_reconciles_witness:
  "fst (syncStatuses
     \<lparr>oldPath = ''test.txt'', newPath = ''test.txt'',
      hunks = [\<lparr>oldStart = 1, oldCount = 0, newStart = 1, newCount = 1, header = ''@@ -0,0 +1,1 @@'',
                lines = [\<lparr>type = Add, content = ''n''\<rparr>], rawLines = [''@@ -0,0 +1,1 @@'', ''+n''],
                hunk_id = Some ''hunk-NEW''\<rparr>,
               \<lparr>oldStart = 5, oldCount = 0, newStart = 6, newCount = 1, header = ''@@ -4,0 +6,1 @@'',
                lines = [\<lparr>type = Add, content = ''b''\<rparr>], rawLines = [''@@ -4,0 +6,1 @@'', ''+b''],
                hunk_id = Some ''hunk-B''\<rparr>],
      isBinary = False, diffHeader = [''--- a/test.txt'', ''+++ b/test.txt'']\<rparr>
     \<lparr>statuses = [(''test.txt'', [(''hunk-A'', Pending), (''hunk-B'', Approved)])],
      undoStack = [], storage = None, gitCalls = []\<rparr>) ! 1 = Approved"
proof -
  let ?file = "\<lparr>oldPath = ''test.txt'', newPath = ''test.txt'',
      hunks = [\<lparr>oldStart = 1, oldCount = 0, newStart = 1, newCount = 1, header = ''@@ -0,0 +1,1 @@'',
                lines = [\<lparr>type = Add, content = ''n''\<rparr>], rawLines = [''@@ -0,0 +1,1 @@'', ''+n''],
                hunk_id = Some ''hunk-NEW''\<rparr>,
               \<lparr>oldStart = 5, oldCount = 0, newStart = 6, newCount = 1, header = ''@@ -4,0 +6,1 @@'',
                lines = [\<lparr>type = Add, content = ''b''\<rparr>], rawLines = [''@@ -4,0 +6,1 @@'', ''+b''],
                hunk_id = Some ''hunk-B''\<rparr>],
      isBinary = False, diffHeader = [''--- a/test.txt'', ''+++ b/test.txt'']\<rparr>"
  let ?m = "\<lparr>statuses = [(''test.txt'', [(''hunk-A'', Pending), (''hunk-B'', Approved)])],
      undoStack = [], storage = None, gitCalls = []\<rparr>"
  have "1 < length (hunks ?file) \<and> truthyId (hunks ?file ! 1) = Some ''hunk-B''
      \<and> statusOf ?m (pathOf ?file) ''hunk-B'' = Some Approved"
    by (simp add: truthyId_def statusOf_def pathOf_def)
  with syncStatuses_reconciles [of ?file ?m] show ?thesis by blast
qed

text \<open>
  Claim C9. \<open>approve\<close> with a path that has no status map, or with an identity that the map
  does not hold, returns the state as it is: no status, no undo entry, no write to the
  storage, no call to git. \<open>reject\<close> with an identity that no hunk of the given file carries
  returns \<open>null\<close> and the state as it is; in particular reverse-apply is not called.
\<close>

theorem lookup_miss_is_noop:
  "(statusOf m fp i = None \<longrightarrow> approve fp i m = m)
   \<and> ((\<forall>h \<in> set (hunks file). hunk_id h \<noteq> Some i)
        \<longrightarrow> reject fp i file applyOk fresh m = (Inr None, m))"
proof (intro conjI impI)
  assume "statusOf m fp i = None"
  then show "approve fp i m = m"
    by (auto simp: approve_def statusOf_def split: option.splits)
next
  assume "\<forall>h \<in> set (hunks file). hunk_id h \<noteq> Some i"
  then have "find (\<lambda>h. hunk_id h = Some i) (hunks file) = None"
    by (simp add: find_None_iff)
  then show "reject fp i file applyOk fresh m = (Inr None, m)"
    by (simp add: reject_def)
qed

text \<open>The theorem at an identity that is neither in the status map nor in the file.\<close>

theorem lookup_miss_is_noop_witness:
  "approve ''test.txt'' ''nonexistent''
     \<lparr>statuses = [(''test.txt'', [(''hunk-A'', Pending)])], undoStack = [],
      storage = Some None, gitCalls = []\<rparr>
   = \<lparr>statuses = [(''test.txt'', [(''hunk-A'', Pending)])], undoStack = [],
      storage = Some None, gitCalls = []\<rparr>
   \<and> reject ''test.txt'' ''nonexistent''
       \<lparr>oldPath = ''test.txt'', newPath = ''test.txt'',
        hunks = [\<lparr>oldStart = 1, oldCount = 0, newStart = 1, newCount = 1, header = ''@@ -0,0 +1,1 @@'',
                  lines = [\<lparr>type = Add, content = ''n''\<rparr>], rawLines = [''@@ -0,0 +1,1 @@'', ''+n''],
                  hunk_id = Some ''hunk-A''\<rparr>],
        isBinary = False, diffHeader = [''--- a/test.txt'', ''+++ b/test.txt'']\<rparr>
       True (Some [])
       \<lparr>statuses = [(''test.txt'', [(''hunk-A'', Pending)])], undoStack = [],
        storage = Some None, gitCalls = []\<rparr>
     = (Inr None,
        \<lparr>statuses = [(''test.txt'', [(''hunk-A'', Pending)])], undoStack = [],
         storage = Some None, gitCalls = []\<rparr>)"
proof -
  let ?m = "\<lparr>statuses = [(''test.txt'', [(''hunk-A'', Pending)])], undoStack = [],
      storage = Some None, gitCalls = []\<rparr>"
  let ?file = "\<lparr>oldPath = ''test.txt'', newPath = ''test.txt'',
        hunks = [\<lparr>oldStart = 1, oldCount = 0, newStart = 1, newCount = 1, header = ''@@ -0,0 +1,1 @@'',
                  lines = [\<lparr>type = Add, content = ''n''\<rparr>], rawLines = [''@@ -0,0 +1,1 @@'', ''+n''],
                  hunk_id = Some ''hunk-A''\<rparr>],
        isBinary = False, diffHeader = [''--- a/test.txt'', ''+++ b/test.txt'']\<rparr>"
  have a: "statusOf ?m ''test.txt'' ''nonexistent'' = None"
    by (simp add: statusOf_def)
  have b: "\<forall>h \<in> set (hunks ?file). hunk_id h \<noteq> Some ''nonexistent''"
    by simp
  from lookup_miss_is_noop [of ?m "''test.txt''" "''nonexistent''" ?file True "Some []"] a b
  show ?thesis by blast
qed

text \<open>
  Every \<open>reject\<close> entry of the undo stack stores a patch text that is not empty: the only
  place that pushes one is \<open>reject\<close>, with the text of \<open>buildPatch\<close>.
\<close>

definition patchStored :: "undo_entry \<Rightarrow> bool" where
  "patchStored e =
     (entry_type e = RejectAction \<longrightarrow> (\<exists>patch. forwardPatch e = Some patch \<and> patch \<noteq> []))"

lemma buildPatch_not_empty: "buildPatch fl hunk \<noteq> []"
  by (simp add: buildPatch_def)

lemma undoStack_syncStatuses [simp]: "undoStack (snd (syncStatuses fl m)) = undoStack m"
  by (simp add: syncStatuses_def Let_def split: option.splits)

lemma reject_pushes_patch:
  assumes "find (\<lambda>h. hunk_id h = Some i) (hunks fl) = Some hunk"
  shows "undoStack (snd (reject fp i fl True fresh m))
      = undoStack m @ [\<lparr>entry_type = RejectAction, filePath = fp, hunkId = i,
                         forwardPatch = Some (buildPatch fl hunk)\<rparr>]"
  using assms
  by (auto simp: reject_def Let_def split: option.splits list.splits)

text \<open>
  \<open>undo\<close> right after a \<open>reject\<close> that went through calls forward-apply with the patch that
  \<open>reject\<close> applied in reverse.
\<close>

lemma reject_then_undo:
  assumes "find (\<lambda>h. hunk_id h = Some i) (hunks fl) = Some hunk"
  shows "gitCalls (snd (undo applyOk (snd (reject fp i fl True fresh m))))
      = gitCalls (snd (reject fp i fl True fresh m)) @ [ApplyForward (buildPatch fl hunk)]"
proof -
  obtain c cs where p: "buildPatch fl hunk = c # cs"
    using buildPatch_not_empty [of fl hunk] by (cases "buildPatch fl hunk") auto
  show ?thesis
    using reject_pushes_patch [OF assms, of fp fresh m] p
    by (simp add: undo_def Let_def)
qed

lemma approveLoop_stored:
  "list_all patchStored stack \<Longrightarrow> list_all patchStored (snd (approveLoop fp hs mp stack))"
  by (induction fp hs mp stack rule: approveLoop.induct)
     (auto simp: patchStored_def split: option.splits)

lemma removeFirst_stored: "list_all patchStored es \<Longrightarrow> list_all patchStored (removeFirst P es)"
  by (induction es) auto

lemma butlast_stored: "list_all patchStored es \<Longrightarrow> list_all patchStored (butlast es)"
  by (auto simp: list_all_iff dest: in_set_butlastD)

lemma perform_stored:
  assumes "list_all patchStored (undoStack m)"
  shows "list_all patchStored (undoStack (perform op m))"
proof (cases op)
  case (SyncStatuses fl)
  with assms show ?thesis by simp
next
  case (Approve fp i)
  with assms show ?thesis
    by (auto simp: approve_def patchStored_def split: option.splits)
next
  case (ApproveAll fp fl)
  show ?thesis
  proof (cases "map_of (statuses m) fp")
    case None
    with ApproveAll assms show ?thesis by (simp add: approveAll_def)
  next
    case (Some mp)
    obtain mp' stack' where l: "approveLoop fp (hunks fl) mp (undoStack m) = (mp', stack')"
      by (cases "approveLoop fp (hunks fl) mp (undoStack m)")
    from approveLoop_stored [OF assms, of fp "hunks fl" mp] l
    have "list_all patchStored stack'" by simp
    with ApproveAll Some l show ?thesis by (simp add: approveAll_def)
  qed
next
  case (Reject fp i fl applyOk fresh)
  with assms show ?thesis
    by (auto simp: reject_def Let_def patchStored_def buildPatch_not_empty
             split: option.splits list.splits)
next
  case (Undo applyOk)
  with assms butlast_stored [of "undoStack m"] show ?thesis
    by (auto simp: undo_def Let_def split: option.splits list.splits)
next
  case (UndoApprove fp i)
  with assms removeFirst_stored [of "rev (undoStack m)"] show ?thesis
    by (auto simp: undoApprove_def split: option.splits)
next
  case Clear
  then show ?thesis by (simp add: clear_def)
next
  case (PruneCommittedFiles fs)
  with assms show ?thesis
    by (auto simp: pruneCommittedFiles_def Let_def split: prod.splits)
qed

lemma newStateManager_stored: "list_all patchStored (undoStack (newStateManager st))"
  by (simp add: newStateManager_def restoreFromStorage_def split: option.splits)

text \<open>
  Claim C7. With an empty undo stack, \<open>undo\<close> returns \<open>null\<close> and the state as it is. Otherwise
  it removes exactly the last entry of the stack. For an \<open>approve\<close> entry it calls nothing
  on git, sets the status of the entry's identity to \<open>pending\<close> where the map holds the
  identity (an identity that the map does not hold stays absent, which reads as \<open>pending\<close>),
  leaves every other status unchanged and returns the entry's path and \<open>approve\<close>. For a
  \<open>reject\<close> entry that stores a patch text it calls forward-apply with that text once, leaves
  the statuses unchanged and, when the call succeeds, returns the entry's path and \<open>reject\<close>.
\<close>

theorem undo_reverses_last:
  "(undoStack m = [] \<longrightarrow> undo applyOk m = (Inr None, m))
   \<and> (\<forall>es e. undoStack m = es @ [e] \<longrightarrow>
        undoStack (snd (undo applyOk m)) = es
        \<and> (entry_type e = ApproveAction \<longrightarrow>
             fst (undo applyOk m) = Inr (Some (filePath e, ApproveAction))
             \<and> gitCalls (snd (undo applyOk m)) = gitCalls m
             \<and> statusOf (snd (undo applyOk m)) (filePath e) (hunkId e)
                 = (if statusOf m (filePath e) (hunkId e) = None then None else Some Pending)
             \<and> (\<forall>p i. (p, i) \<noteq> (filePath e, hunkId e)
                   \<longrightarrow> statusOf (snd (undo applyOk m)) p i = statusOf m p i))
        \<and> (\<forall>patch. entry_type e = RejectAction \<and> forwardPatch e = Some patch \<and> patch \<noteq> []
             \<longrightarrow> gitCalls (snd (undo applyOk m)) = gitCalls m @ [ApplyForward patch]
               \<and> statuses (snd (undo applyOk m)) = statuses m
               \<and> (applyOk \<longrightarrow> fst (undo applyOk m) = Inr (Some (filePath e, RejectAction)))))"
proof (intro conjI allI impI)
  assume "undoStack m = []"
  then show "undo applyOk m = (Inr None, m)" by (simp add: undo_def)
next
  fix es e assume st: "undoStack m = es @ [e]"
  show "undoStack (snd (undo applyOk m)) = es"
    using st by (auto simp: undo_def Let_def split: option.splits list.splits)
  {
    assume a: "entry_type e = ApproveAction"
    show "fst (undo applyOk m) = Inr (Some (filePath e, ApproveAction))"
      using st a by (simp add: undo_def Let_def)
    show "gitCalls (snd (undo applyOk m)) = gitCalls m"
      using st a by (simp add: undo_def Let_def split: option.splits)
    have sts: "statuses (snd (undo applyOk m)) =
        (case map_of (statuses m) (filePath e) of
           None \<Rightarrow> statuses m
         | Some mp \<Rightarrow> if map_of mp (hunkId e) \<noteq> None
             then AList.update (filePath e) (AList.update (hunkId e) Pending mp) (statuses m)
             else statuses m)"
      using st a by (simp add: undo_def Let_def split: option.splits)
    show "statusOf (snd (undo applyOk m)) (filePath e) (hunkId e)
        = (if statusOf m (filePath e) (hunkId e) = None then None else Some Pending)"
      unfolding statusOf_def sts by (auto simp: update_conv' split: option.splits)
    fix p i assume "(p, i) \<noteq> (filePath e, hunkId e)"
    then show "statusOf (snd (undo applyOk m)) p i = statusOf m p i"
      unfolding statusOf_def sts by (auto simp: update_conv' split: option.splits)
  }
  {
    fix patch
    assume r: "entry_type e = RejectAction \<and> forwardPatch e = Some patch \<and> patch \<noteq> []"
    then obtain c cs where p: "patch = c # cs" by (cases patch) auto
    show "gitCalls (snd (undo applyOk m)) = gitCalls m @ [ApplyForward patch]"
      using st r p by (simp add: undo_def Let_def)
    show "statuses (snd (undo applyOk m)) = statuses m"
      using st r p by (simp add: undo_def Let_def)
    assume applyOk
    then show "fst (undo applyOk m) = Inr (Some (filePath e, RejectAction))"
      using st r p by (simp add: undo_def Let_def)
  }
qed


text \<open>
  The theorem at a stack of two approvals, at a stack holding one rejection, and at the
  empty stack.
\<close>

theorem undo_reverses_last_witness:
  "undoStack (snd (undo True
     \<lparr>statuses = [(''test.txt'', [(''a'', Approved), (''b'', Approved)])],
      undoStack = [\<lparr>entry_type = ApproveAction, filePath = ''test.txt'', hunkId = ''b'',
                    forwardPatch = None\<rparr>,
                   \<lparr>entry_type = ApproveAction, filePath = ''test.txt'', hunkId = ''a'',
                    forwardPatch = None\<rparr>],
      storage = Some None, gitCalls = []\<rparr>))
   = [\<lparr>entry_type = ApproveAction, filePath = ''test.txt'', hunkId = ''b'', forwardPatch = None\<rparr>]
   \<and> fst (undo True
     \<lparr>statuses = [(''test.txt'', [(''a'', Approved), (''b'', Approved)])],
      undoStack = [\<lparr>entry_type = ApproveAction, filePath = ''test.txt'', hunkId = ''b'',
                    forwardPatch = None\<rparr>,
                   \<lparr>entry_type = ApproveAction, filePath = ''test.txt'', hunkId = ''a'',
                    forwardPatch = None\<rparr>],
      storage = Some None, gitCalls = []\<rparr>) = Inr (Some (''test.txt'', ApproveAction))
   \<and> statusOf (snd (undo True
     \<lparr>statuses = [(''test.txt'', [(''a'', Approved), (''b'', Approved)])],
      undoStack = [\<lparr>entry_type = ApproveAction, filePath = ''test.txt'', hunkId = ''b'',
                    forwardPatch = None\<rparr>,
                   \<lparr>entry_type = ApproveAction, filePath = ''test.txt'', hunkId = ''a'',
                    forwardPatch = None\<rparr>],
      storage = Some None, gitCalls = []\<rparr>)) ''test.txt'' ''a'' = Some Pending
   \<and> statusOf (snd (undo True
     \<lparr>statuses = [(''test.txt'', [(''a'', Approved), (''b'', Approved)])],
      undoStack = [\<lparr>entry_type = ApproveAction, filePath = ''test.txt'', hunkId = ''b'',
                    forwardPatch = None\<rparr>,
                   \<lparr>entry_type = ApproveAction, filePath = ''test.txt'', hunkId = ''a'',
                    forwardPatch = None\<rparr>],
      storage = Some None, gitCalls = []\<rparr>)) ''test.txt'' ''b'' = Some Approved
   \<and> gitCalls (snd (undo True
     \<lparr>statuses = [], 
      undoStack = [\<lparr>entry_type = RejectAction, filePath = ''test.txt'', hunkId = ''c'',
                    forwardPatch = Some ''--- a/test.txt\<newline>+++ b/test.txt\<newline>@@ -0,0 +1,1 @@\<newline>+n\<newline>''\<rparr>],
      storage = Some None, gitCalls = []\<rparr>))
     = [ApplyForward ''--- a/test.txt\<newline>+++ b/test.txt\<newline>@@ -0,0 +1,1 @@\<newline>+n\<newline>'']
   \<and> undo True \<lparr>statuses = [], undoStack = [], storage = Some None, gitCalls = []\<rparr>
     = (Inr None, \<lparr>statuses = [], undoStack = [], storage = Some None, gitCalls = []\<rparr>)"
proof -
  let ?eb = "\<lparr>entry_type = ApproveAction, filePath = ''test.txt'', hunkId = ''b'', forwardPatch = None\<rparr>"
  let ?ea = "\<lparr>entry_type = ApproveAction, filePath = ''test.txt'', hunkId = ''a'', forwardPatch = None\<rparr>"
  let ?m = "\<lparr>statuses = [(''test.txt'', [(''a'', Approved), (''b'', Approved)])],
      undoStack = [?eb, ?ea], storage = Some None, gitCalls = []\<rparr>"
  let ?p = "''--- a/test.txt\<newline>+++ b/test.txt\<newline>@@ -0,0 +1,1 @@\<newline>+n\<newline>''"
  let ?er = "\<lparr>entry_type = RejectAction, filePath = ''test.txt'', hunkId = ''c'', forwardPatch = Some ?p\<rparr>"
  let ?r = "\<lparr>statuses = [], undoStack = [?er], storage = Some None, gitCalls = []\<rparr>"
  let ?z = "\<lparr>statuses = [], undoStack = [], storage = Some None, gitCalls = []\<rparr>"
  have m: "undoStack ?m = [?eb] @ [?ea]" "entry_type ?ea = ApproveAction"
    "(''test.txt'', ''b'') \<noteq> (filePath ?ea, hunkId ?ea)"
    by simp_all
  have sa: "statusOf ?m ''test.txt'' ''a'' = Some Approved" "statusOf ?m ''test.txt'' ''b'' = Some Approved"
    by (simp_all add: statusOf_def)
  from undo_reverses_last [of ?m True] m
  have 1: "undoStack (snd (undo True ?m)) = [?eb]"
    and 2: "fst (undo True ?m) = Inr (Some (filePath ?ea, ApproveAction))"
    and 3: "statusOf (snd (undo True ?m)) (filePath ?ea) (hunkId ?ea)
                 = (if statusOf ?m (filePath ?ea) (hunkId ?ea) = None then None else Some Pending)"
    and 4: "statusOf (snd (undo True ?m)) ''test.txt'' ''b'' = statusOf ?m ''test.txt'' ''b''"
    by blast+
  have r: "undoStack ?r = [] @ [?er]"
    "entry_type ?er = RejectAction \<and> forwardPatch ?er = Some ?p \<and> ?p \<noteq> []"
    by simp_all
  from undo_reverses_last [of ?r True] r
  have 5: "gitCalls (snd (undo True ?r)) = gitCalls ?r @ [ApplyForward ?p]"
    by blast
  have "undoStack ?z = []" by simp
  with undo_reverses_last [of ?z True]
  have 6: "undo True ?z = (Inr None, ?z)" by blast
  from 1 2 3 4 5 6 sa show ?thesis by simp
qed

section \<open>Properties of the persisted state\<close>

text \<open>Well-formed maps: a JavaScript Map holds a key once.\<close>

definition wfStatuses :: "(string \<times> status_map) list \<Rightarrow> bool" where
  "wfStatuses sts = (distinct (map fst sts) \<and> (\<forall>(p, mp) \<in> set sts. distinct (map fst mp)))"

definition lookup2 :: "(string \<times> status_map) list \<Rightarrow> string \<Rightarrow> string \<Rightarrow> hunk_status option" where
  "lookup2 x p i = (case map_of x p of None \<Rightarrow> None | Some mp \<Rightarrow> map_of mp i)"

text \<open>
  The stored object holds exactly the approved identities that an object can hold: every
  entry of it is an identity that is approved in memory, stored as \<open>approved\<close>, under keys
  other than \<open>__proto__\<close>; every identity approved in memory is in it, unless its path or the
  identity itself is \<open>__proto__\<close>; no path has an empty object; no key stands twice.
\<close>

definition approvedOnly :: "(string \<times> status_map) list \<Rightarrow> (string \<times> status_map) list \<Rightarrow> bool" where
  "approvedOnly data sts =
     (distinct (map fst data)
      \<and> (\<forall>(p, obj) \<in> set data.
            p \<noteq> protoKey \<and> obj \<noteq> [] \<and> distinct (map fst obj)
            \<and> (\<forall>(i, s) \<in> set obj. i \<noteq> protoKey \<and> s = Approved \<and> lookup2 sts p i = Some Approved))
      \<and> (\<forall>p i. p \<noteq> protoKey \<and> i \<noteq> protoKey \<and> lookup2 sts p i = Some Approved
             \<longrightarrow> lookup2 data p i = Some Approved))"

text \<open>
  The shape of every object that \<open>persist\<close> writes, and the storages on which a manager is
  constructed: none, an empty one, or one that holds such an object.
\<close>

definition writtenBlob :: "(string \<times> status_map) list \<Rightarrow> bool" where
  "writtenBlob data =
     (distinct (map fst data)
      \<and> (\<forall>(p, obj) \<in> set data.
            p \<noteq> protoKey \<and> obj \<noteq> [] \<and> distinct (map fst obj)
            \<and> (\<forall>(i, s) \<in> set obj. i \<noteq> protoKey \<and> s = Approved)))"



lemma update_fresh: "k \<notin> fst ` set al \<Longrightarrow> AList.update k v al = al @ [(k, v)]"
  by (induction al) auto

lemma approvedObj_filter:
  assumes "distinct (map fst mp)"
  shows "approvedObj mp = filter (\<lambda>(i, s). s = Approved \<and> i \<noteq> protoKey) mp"
proof -
  have "distinct (map fst xs) \<Longrightarrow> fst ` set xs \<inter> fst ` set acc = {} \<Longrightarrow>
      fold (\<lambda>(i, status) obj. if status = Approved then objectSet i status obj else obj) xs acc
      = acc @ filter (\<lambda>(i, s). s = Approved \<and> i \<noteq> protoKey) xs" for xs acc :: status_map
  proof (induction xs arbitrary: acc)
    case Nil
    show ?case by simp
  next
    case (Cons x xs)
    obtain i s where x: "x = (i, s)" by (cases x)
    show ?case
    proof (cases "s = Approved \<and> i \<noteq> protoKey")
      case True
      have f: "i \<notin> fst ` set acc" using Cons.prems(2) x by auto
      have "fst ` set xs \<inter> fst ` set (acc @ [(i, s)]) = {}"
        using Cons.prems x by auto
      with Cons.IH [of "acc @ [(i, s)]"] Cons.prems(1) x True f show ?thesis
        by (simp add: update_fresh objectSet_def)
    next
      case False
      have "fst ` set xs \<inter> fst ` set acc = {}" using Cons.prems(2) by auto
      with Cons.IH [of acc] Cons.prems(1) x False show ?thesis
        by (auto simp: objectSet_def)
    qed
  qed
  from this [of mp "[]"] assms show ?thesis by (simp add: approvedObj_def)
qed

lemma persistData_filter:
  assumes "distinct (map fst sts)"
  shows "persistData sts
    = filter (\<lambda>(p, obj). obj \<noteq> [] \<and> p \<noteq> protoKey) (map (\<lambda>(p, mp). (p, approvedObj mp)) sts)"
proof -
  have "distinct (map fst xs) \<Longrightarrow> fst ` set xs \<inter> fst ` set acc = {} \<Longrightarrow>
      fold (\<lambda>(filePath, mp) data.
             (let obj = approvedObj mp in
              if obj \<noteq> [] then objectSet filePath obj data else data)) xs acc
      = acc @ filter (\<lambda>(p, obj). obj \<noteq> [] \<and> p \<noteq> protoKey)
                (map (\<lambda>(p, mp). (p, approvedObj mp)) xs)"
    for xs acc :: "(string \<times> status_map) list"
  proof (induction xs arbitrary: acc)
    case Nil
    show ?case by simp
  next
    case (Cons x xs)
    obtain p mp where x: "x = (p, mp)" by (cases x)
    show ?case
    proof (cases "approvedObj mp \<noteq> [] \<and> p \<noteq> protoKey")
      case False
      have "fst ` set xs \<inter> fst ` set acc = {}" using Cons.prems(2) by auto
      with Cons.IH [of acc] Cons.prems(1) x False show ?thesis
        by (auto simp: objectSet_def Let_def)
    next
      case True
      have f: "p \<notin> fst ` set acc" using Cons.prems(2) x by auto
      have "fst ` set xs \<inter> fst ` set (acc @ [(p, approvedObj mp)]) = {}"
        using Cons.prems x by auto
      with Cons.IH [of "acc @ [(p, approvedObj mp)]"] Cons.prems(1) x True f show ?thesis
        by (simp add: update_fresh Let_def objectSet_def)
    qed
  qed
  from this [of sts "[]"] assms show ?thesis by (simp add: persistData_def)
qed

lemma persistData_approvedOnly:
  assumes wf: "wfStatuses sts"
  shows "approvedOnly (persistData sts) sts"
proof -
  let ?A = "\<lambda>mp :: status_map. filter (\<lambda>(i, s). s = Approved \<and> i \<noteq> protoKey) mp"
  from wf have d: "distinct (map fst sts)" and dm: "\<And>p mp. (p, mp) \<in> set sts \<Longrightarrow> distinct (map fst mp)"
    by (auto simp: wfStatuses_def)
  have mem: "(p, obj) \<in> set (persistData sts)
      \<longleftrightarrow> (\<exists>mp. (p, mp) \<in> set sts \<and> obj = ?A mp \<and> obj \<noteq> [] \<and> p \<noteq> protoKey)" for p obj
  proof -
    have "(p, obj) \<in> set (persistData sts)
        \<longleftrightarrow> (\<exists>mp. (p, mp) \<in> set sts \<and> obj = approvedObj mp \<and> obj \<noteq> [] \<and> p \<noteq> protoKey)"
      unfolding persistData_filter [OF d] by auto
    also have "\<dots> \<longleftrightarrow> (\<exists>mp. (p, mp) \<in> set sts \<and> obj = ?A mp \<and> obj \<noteq> [] \<and> p \<noteq> protoKey)"
      using dm approvedObj_filter by metis
    finally show ?thesis .
  qed
  have keys: "map fst (persistData sts)
      = map fst (filter (\<lambda>(p, obj). obj \<noteq> [] \<and> p \<noteq> protoKey)
                   (map (\<lambda>(p, mp). (p, approvedObj mp)) sts))"
    by (simp add: persistData_filter [OF d])
  have dd: "distinct (map fst (persistData sts))"
  proof -
    have "distinct (map fst (filter P (map (\<lambda>(p, mp). (p, g mp)) xs)))"
      if "distinct (map fst xs)" for P g and xs :: "(string \<times> status_map) list"
      using that by (induction xs) (auto simp: image_iff)
    from this [OF d] show ?thesis unfolding keys .
  qed
  show ?thesis
    unfolding approvedOnly_def
  proof (intro conjI ballI allI impI)
    show "distinct (map fst (persistData sts))" by (rule dd)
  next
    fix x assume x: "x \<in> set (persistData sts)"
    obtain p obj where po: "x = (p, obj)" by (cases x)
    with x mem obtain mp where mp: "(p, mp) \<in> set sts" "obj = ?A mp" "obj \<noteq> []" "p \<noteq> protoKey"
      by blast
    have sp: "map_of sts p = Some mp" using d mp(1) by simp
    have "distinct (map fst obj)" unfolding mp(2) using dm [OF mp(1)] by (simp add: distinct_map_filter)
    moreover have "\<forall>(i, s) \<in> set obj. i \<noteq> protoKey \<and> s = Approved \<and> lookup2 sts p i = Some Approved"
    proof (clarify)
      fix i s assume "(i, s) \<in> set obj"
      then have "s = Approved" "i \<noteq> protoKey" "(i, s) \<in> set mp" unfolding mp(2) by auto
      then show "i \<noteq> protoKey \<and> s = Approved \<and> lookup2 sts p i = Some Approved"
        using dm [OF mp(1)] sp by (simp add: lookup2_def)
    qed
    ultimately show "case x of (p, obj) \<Rightarrow> p \<noteq> protoKey \<and> obj \<noteq> [] \<and> distinct (map fst obj)
        \<and> (\<forall>(i, s) \<in> set obj. i \<noteq> protoKey \<and> s = Approved \<and> lookup2 sts p i = Some Approved)"
      using po mp(3,4) by simp
  next
    fix p i assume a: "p \<noteq> protoKey \<and> i \<noteq> protoKey \<and> lookup2 sts p i = Some Approved"
    then obtain mp where sp: "map_of sts p = Some mp" and mi: "map_of mp i = Some Approved"
      by (auto simp: lookup2_def split: option.splits)
    from sp have in_sts: "(p, mp) \<in> set sts" by (rule map_of_SomeD)
    from mi have "(i, Approved) \<in> set mp" by (rule map_of_SomeD)
    with a have io: "(i, Approved) \<in> set (?A mp)" by simp
    have ne: "?A mp \<noteq> []"
    proof
      assume "?A mp = []"
      with io show False by simp
    qed
    have "(p, ?A mp) \<in> set (persistData sts)" using mem in_sts ne a by blast
    then have "map_of (persistData sts) p = Some (?A mp)" using dd by simp
    moreover have "map_of (?A mp) i = Some Approved"
      using io dm [OF in_sts] by (simp add: distinct_map_filter)
    ultimately show "lookup2 (persistData sts) p i = Some Approved"
      by (simp add: lookup2_def)
  qed
qed










lemma wf_Nil [simp]: "wfStatuses []"
  by (simp add: wfStatuses_def)







lemma pruneLoop_unchanged:
  "\<not> snd (pruneLoop cur ks sts ch) \<Longrightarrow> fst (pruneLoop cur ks sts ch) = sts \<and> \<not> ch"
  by (induction cur ks sts ch rule: pruneLoop.induct) (auto split: if_splits)






text \<open>An approval under the path \<open>__proto__\<close>, or of the identity \<open>__proto__\<close>, is not stored.\<close>

lemma proto_not_stored:
  "persistData [(''__proto__'', [(''h1'', Approved)])] = []"
  "persistData [(''a.txt'', [(''__proto__'', Approved)])] = []"
  "persistData [(''a.txt'', [(''__proto__'', Approved), (''h1'', Approved)])]
     = [(''a.txt'', [(''h1'', Approved)])]"
  by (simp_all add: persistData_def approvedObj_def objectSet_def protoKey_def)

lemma approvedOnly_written: "approvedOnly data sts \<Longrightarrow> writtenBlob data"
  unfolding approvedOnly_def writtenBlob_def by fastforce

lemma persistData_written: "wfStatuses sts \<Longrightarrow> writtenBlob (persistData sts)"
  by (rule approvedOnly_written) (rule persistData_approvedOnly)












end
